theory Spec2Isabelle
  imports Main
begin

section \<open>Process-state reconstruction: model adapter and state computer\<close>

text \<open>
  A shallow embedding of \<^verbatim>\<open>src/bpmn_handler.py\<close> (class BPMNHandler) and
  \<^verbatim>\<open>src/state_computer.py\<close> (class StateComputer).

  Conventions of the embedding:
  \<^item> element ids, flow ids and activity names are Python strings: \<open>string\<close>;
  \<^item> a Python dict that is only looked up is a map; \<open>sequence_flows\<close>, the one dict the
    code iterates over (\<^verbatim>\<open>.items()\<close>), is an association list in insertion order;
  \<^item> a raised exception is the \<open>Inl\<close> branch of a sum.
\<close>

subsection \<open>Errors\<close>

text \<open>The keys of the dicts read with \<^verbatim>\<open>d[k]\<close>: strings, or the integer ids of the graph.\<close>

datatype key = Name string | Ident nat

datatype error =
    ParseError          \<comment> \<open>raised by \<^verbatim>\<open>ET.parse\<close>: unreadable or ill-formed source\<close>
  | KeyError key        \<comment> \<open>\<^verbatim>\<open>d[k]\<close> on a missing key\<close>
  | ValueError          \<comment> \<open>\<^verbatim>\<open>min\<close> of an empty sequence\<close>

subsection \<open>BPMNHandler\<close>

record BPMNHandler =
  sequence_flows :: "(string \<times> string) list"   \<comment> \<open>flow id, targetRef; insertion order\<close>
  activities :: "string \<rightharpoonup> string"             \<comment> \<open>task id to name\<close>
  flow_sources :: "string \<rightharpoonup> string"           \<comment> \<open>flow id to sourceRef\<close>
  task_name_to_id :: "string \<rightharpoonup> string"
  end_events :: "string set"

text \<open>The state of a handler after the assignments of \<^verbatim>\<open>__init__\<close>, before parsing.\<close>

definition init_handler :: BPMNHandler where
  "init_handler =
     \<lparr>sequence_flows = [], activities = Map.empty, flow_sources = Map.empty,
      task_name_to_id = Map.empty, end_events = {}\<rparr>"

text \<open>
  \<^verbatim>\<open>d[k] = v\<close> on an insertion-ordered dict: an existing key keeps its position and
  takes the new value, a new key goes last.
\<close>

fun dict_set :: "('k \<times> 'v) list \<Rightarrow> 'k \<Rightarrow> 'v \<Rightarrow> ('k \<times> 'v) list" where
  "dict_set [] k v = [(k, v)]"
| "dict_set ((k', v') # d) k v = (if k' = k then (k, v) # d else (k', v') # dict_set d k v)"

subsubsection \<open>The parsed document\<close>

text \<open>
  An ElementTree element: its tag (a namespaced tag in Clark notation, as ElementTree
  stores it), its attribute dict and its children in document order.
\<close>

datatype element = Element (tag: string) (attrib: "(string \<times> string) list") (children: "element list")

text \<open>All elements strictly below an element, in document order: what \<^verbatim>\<open>.//\<close> ranges over.\<close>

fun descendants :: "element \<Rightarrow> element list" where
  "descendants (Element t a cs) = concat (map (\<lambda>c. c # descendants c) cs)"

definition bpmn :: "string \<Rightarrow> string" where
  "bpmn name = ''{http://www.omg.org/spec/BPMN/20100524/MODEL}'' @ name"

definition findall :: "element \<Rightarrow> string \<Rightarrow> element list" where
  "findall root t = filter (\<lambda>e. tag e = t) (descendants root)"

text \<open>Lines 26-30 of \<^verbatim>\<open>bpmn_handler.py\<close>: the loop over the task elements.\<close>

fun parse_tasks :: "BPMNHandler \<Rightarrow> element list \<Rightarrow> error + BPMNHandler" where
  "parse_tasks h [] = Inr h"
| "parse_tasks h (task # rest) =
     (case map_of (attrib task) ''id'' of
        None \<Rightarrow> Inl (KeyError (Name ''id''))
      | Some t_id \<Rightarrow>
          (let t_name = (case map_of (attrib task) ''name'' of
                           None \<Rightarrow> ''Unnamed Task '' @ t_id
                         | Some n \<Rightarrow> n)
           in parse_tasks
                (h\<lparr>activities := (activities h)(t_id \<mapsto> t_name),
                   task_name_to_id := (task_name_to_id h)(t_name \<mapsto> t_id)\<rparr>) rest))"

text \<open>Lines 33-35 and 38-40: the two loops over end events share one body.\<close>

fun parse_end_events :: "BPMNHandler \<Rightarrow> element list \<Rightarrow> error + BPMNHandler" where
  "parse_end_events h [] = Inr h"
| "parse_end_events h (end_event # rest) =
     (case map_of (attrib end_event) ''id'' of
        None \<Rightarrow> Inl (KeyError (Name ''id''))
      | Some event_id \<Rightarrow>
          parse_end_events (h\<lparr>end_events := insert event_id (end_events h)\<rparr>) rest)"

text \<open>
  Lines 43-46: the loop over sequence flows. The attributes are read in the order
  \<^verbatim>\<open>id\<close>, \<^verbatim>\<open>targetRef\<close>, \<^verbatim>\<open>sourceRef\<close>; the target is stored before the source is read.
\<close>

fun parse_sequence_flows :: "BPMNHandler \<Rightarrow> element list \<Rightarrow> error + BPMNHandler" where
  "parse_sequence_flows h [] = Inr h"
| "parse_sequence_flows h (seq_flow # rest) =
     (case map_of (attrib seq_flow) ''id'' of
        None \<Rightarrow> Inl (KeyError (Name ''id''))
      | Some sf_id \<Rightarrow>
          (case map_of (attrib seq_flow) ''targetRef'' of
             None \<Rightarrow> Inl (KeyError (Name ''targetRef''))
           | Some tgt \<Rightarrow>
               (case map_of (attrib seq_flow) ''sourceRef'' of
                  None \<Rightarrow> Inl (KeyError (Name ''sourceRef''))
                | Some src \<Rightarrow>
                    parse_sequence_flows
                      (h\<lparr>sequence_flows := dict_set (sequence_flows h) sf_id tgt,
                         flow_sources := (flow_sources h)(sf_id \<mapsto> src)\<rparr>) rest)))"

text \<open>
  \<^verbatim>\<open>parse_bpmn_xml\<close>, run by the constructor on a fresh handler. The argument is the
  outcome of \<^verbatim>\<open>ET.parse(self.bpmn_model_path)\<close>: \<open>None\<close> when that call raises, the root
  element otherwise. An exception leaves the constructor, so no handler is returned.
\<close>

definition parse_bpmn_xml :: "element option \<Rightarrow> error + BPMNHandler" where
  "parse_bpmn_xml src =
     (case src of
        None \<Rightarrow> Inl ParseError
      | Some root \<Rightarrow>
          (case parse_tasks init_handler (findall root (bpmn ''task'')) of
             Inl e \<Rightarrow> Inl e
           | Inr h1 \<Rightarrow>
               (case parse_end_events h1 (findall root (bpmn ''endEvent'')) of
                  Inl e \<Rightarrow> Inl e
                | Inr h2 \<Rightarrow>
                    (case parse_end_events h2 (findall root ''endEvent'') of
                       Inl e \<Rightarrow> Inl e
                     | Inr h3 \<Rightarrow> parse_sequence_flows h3 (findall root (bpmn ''sequenceFlow''))))))"

definition is_end_event :: "BPMNHandler \<Rightarrow> string \<Rightarrow> bool" where
  "is_end_event h element_id \<longleftrightarrow> element_id \<in> end_events h"

definition get_task_id_by_name :: "BPMNHandler \<Rightarrow> string \<Rightarrow> string option" where
  "get_task_id_by_name h name = task_name_to_id h name"

subsubsection \<open>Upstream tasks through gateways\<close>

text \<open>
  The inner \<^verbatim>\<open>for\<close> loop of \<^verbatim>\<open>get_upstream_tasks_through_gateways\<close> (lines 65-70) over
  the remaining items of \<open>sequence_flows\<close>. The Python stack is a list whose top is its
  last element; here the top is the head, so \<^verbatim>\<open>append\<close> is a cons.
\<close>

fun push_sources ::
  "BPMNHandler \<Rightarrow> string \<Rightarrow> (string \<times> string) list \<Rightarrow> string set \<Rightarrow> string list
    \<Rightarrow> error + (string set \<times> string list)" where
  "push_sources h current [] visited stack = Inr (visited, stack)"
| "push_sources h current ((sf_id, tgt) # items) visited stack =
     (if tgt = current then
        (case flow_sources h sf_id of
           None \<Rightarrow> Inl (KeyError (Name sf_id))
         | Some src \<Rightarrow>
             if src \<notin> visited
             then push_sources h current items (insert src visited) (src # stack)
             else push_sources h current items visited stack)
      else push_sources h current items visited stack)"

text \<open>Every source recorded for a sequence flow of the model.\<close>

definition sources :: "BPMNHandler \<Rightarrow> string set" where
  "sources h = {src. \<exists>sf \<in> fst ` set (sequence_flows h). flow_sources h sf = Some src}"

lemma finite_sources: "finite (sources h)"
proof -
  have "sources h \<subseteq> (\<lambda>sf. the (flow_sources h sf)) ` (fst ` set (sequence_flows h))"
    by (force simp: sources_def)
  then show ?thesis
    by (rule finite_subset) simp
qed

lemma push_sources_visited:
  "push_sources h current items visited stack = Inr (visited', stack')
   \<Longrightarrow> set items \<subseteq> set (sequence_flows h)
   \<Longrightarrow> visited \<subseteq> visited' \<and> visited' - visited \<subseteq> sources h
       \<and> (visited' = visited \<longrightarrow> stack' = stack)
       \<and> length stack \<le> length stack'"
proof (induction h current items visited stack rule: push_sources.induct)
  case (1 h current visited stack)
  then show ?case by simp
next
  case (2 h current sf_id tgt items visited stack)
  show ?case
  proof (cases "tgt = current")
    case False
    with 2 show ?thesis by simp
  next
    case True
    with "2.prems" obtain src where src: "flow_sources h sf_id = Some src"
      by (auto split: option.splits)
    have in_sources: "src \<in> sources h"
      using "2.prems"(2) src by (force simp: sources_def)
    show ?thesis
    proof (cases "src \<in> visited")
      case True
      with 2 \<open>tgt = current\<close> src show ?thesis by simp
    next
      case False
      with "2.prems" \<open>tgt = current\<close> src
      have run: "push_sources h current items (insert src visited) (src # stack) = Inr (visited', stack')"
        by simp
      have "insert src visited \<subseteq> visited' \<and> visited' - insert src visited \<subseteq> sources h
            \<and> (visited' = insert src visited \<longrightarrow> stack' = src # stack)
            \<and> length (src # stack) \<le> length stack'"
        using "2.IH"(1) [OF \<open>tgt = current\<close> src False run] "2.prems"(2) by simp
      with False in_sources show ?thesis by auto
    qed
  qed
qed

lemma push_sources_decreases:
  assumes "push_sources h current (sequence_flows h) visited stack = Inr (visited', stack')"
  shows "card (sources h - visited') < card (sources h - visited)
         \<or> (card (sources h - visited') = card (sources h - visited)
            \<and> length stack' < length (current # stack))"
proof (cases "visited' = visited")
  case True
  with push_sources_visited [OF assms] show ?thesis by simp
next
  case False
  with push_sources_visited [OF assms] have "sources h - visited' \<subset> sources h - visited"
    by blast
  then have "card (sources h - visited') < card (sources h - visited)"
    by (intro psubset_card_mono) (simp_all add: finite_sources)
  then show ?thesis by simp
qed

text \<open>
  The \<^verbatim>\<open>while stack:\<close> loop (lines 60-70) with its three variables; the head of the
  list is the element \<^verbatim>\<open>stack.pop()\<close> returns.
\<close>

function upstream_loop ::
  "BPMNHandler \<Rightarrow> string set \<Rightarrow> string list \<Rightarrow> string set \<Rightarrow> error + string set" where
  "upstream_loop h visited [] tasks_found = Inr tasks_found"
| "upstream_loop h visited (current # stack) tasks_found =
     (if current \<in> dom (activities h)
      then upstream_loop h visited stack (insert current tasks_found)
      else (case push_sources h current (sequence_flows h) visited stack of
              Inl e \<Rightarrow> Inl e
            | Inr (visited', stack') \<Rightarrow> upstream_loop h visited' stack' tasks_found))"
  by pat_completeness auto

termination
  apply (relation "inv_image (less_than <*lex*> less_than)
                     (\<lambda>(h, visited, stack, found). (card (sources h - visited), length stack))")
    apply (intro wf_inv_image wf_lex_prod wf_less_than)
   apply simp
  subgoal for h visited current stack tasks_found x2 visited' stack'
    using push_sources_decreases [of h current visited stack visited' stack'] by auto
  done

definition get_upstream_tasks_through_gateways :: "BPMNHandler \<Rightarrow> string \<Rightarrow> error + string set" where
  "get_upstream_tasks_through_gateways h gateway_id = upstream_loop h {} [gateway_id] {}"

subsection \<open>The event log\<close>

text \<open>
  One row of the event log data frame. Times are seconds; a null time (\<^verbatim>\<open>NaT\<close>,
  \<^verbatim>\<open>None\<close>) is \<open>None\<close>. The columns are the ones \<^verbatim>\<open>event_log_ids\<close> names; case
  identifiers are natural numbers, of which only equality and order are used.
\<close>

record event =
  case_id :: nat
  activity :: string
  resource :: string
  start_time :: "int option"
  end_time :: "int option"
  enabled_time :: "int option"

text \<open>\<^verbatim>\<open>a <= b\<close> in the order \<^verbatim>\<open>sort_values\<close> uses: nulls last.\<close>

fun time_le :: "int option \<Rightarrow> int option \<Rightarrow> bool" where
  "time_le _ None = True"
| "time_le None (Some _) = False"
| "time_le (Some a) (Some b) = (a \<le> b)"

fun insert_row :: "event \<Rightarrow> event list \<Rightarrow> event list" where
  "insert_row row [] = [row]"
| "insert_row row (r # rs) =
     (if time_le (start_time row) (start_time r) then row # r # rs else r # insert_row row rs)"

text \<open>
  \<^verbatim>\<open>group.sort_values(ids.start_time)\<close>. Rows with equal start times stay in the order
  of the log (pandas leaves their order open).
\<close>

fun sort_values :: "event list \<Rightarrow> event list" where
  "sort_values [] = []"
| "sort_values (row # rows) = insert_row row (sort_values rows)"

text \<open>
  \<^verbatim>\<open>df.groupby(ids.case)\<close>: one group per case id, groups in increasing order of the id,
  rows in the order of the log.
\<close>

definition groupby :: "event list \<Rightarrow> (nat \<times> event list) list" where
  "groupby df = map (\<lambda>c. (c, filter (\<lambda>row. case_id row = c) df)) (sort (remdups (map case_id df)))"

text \<open>\<^verbatim>\<open>Series.max()\<close>: the greatest non-null value, null when there is none.\<close>

fun series_max :: "int option list \<Rightarrow> int option" where
  "series_max [] = None"
| "series_max (None # xs) = series_max xs"
| "series_max (Some a # xs) = (case series_max xs of None \<Rightarrow> Some a | Some b \<Rightarrow> Some (max a b))"

text \<open>
  The builtin \<^verbatim>\<open>min\<close> over the values of a series: it keeps the first value and replaces
  it by a later one that compares smaller; every comparison with a null time is false.
\<close>

fun time_less :: "int option \<Rightarrow> int option \<Rightarrow> bool" where
  "time_less (Some a) (Some b) = (a < b)"
| "time_less _ _ = False"

fun min_loop :: "int option \<Rightarrow> int option list \<Rightarrow> int option" where
  "min_loop m [] = m"
| "min_loop m (x # xs) = min_loop (if time_less x m then x else m) xs"

definition py_min :: "int option list \<Rightarrow> error + int option" where
  "py_min xs = (case xs of [] \<Rightarrow> Inl ValueError | x # rest \<Rightarrow> Inr (min_loop x rest))"

subsection \<open>The collaborators\<close>

text \<open>
  The n-gram index, the reachability graph and the concurrency oracle come from a
  library outside the repository; they are the attributes and methods the state
  computer reads. A Python set of flow ids the code iterates over is the list of its
  members in iteration order; a set that is only intersected with is a set.
\<close>

record NGramIndex =
  TRACE_START :: string
  get_best_marking_state_for :: "string list \<Rightarrow> string list"

text \<open>
  \<open>marking_to_key\<close> is a dict keyed by the sorted tuple of a marking's flow ids. A
  sorted tuple of distinct ids and the set of its members determine each other, so the
  dict is a map on sets and \<^verbatim>\<open>tuple(sorted(state_marking))\<close> is the set of the marking.
\<close>

record ReachabilityGraph =
  marking_to_key :: "string set \<rightharpoonup> nat"
  incoming_edges :: "nat \<rightharpoonup> nat list"
  edge_to_activity :: "nat \<rightharpoonup> string"
  edges :: "nat \<rightharpoonup> nat \<times> nat"
  markings :: "nat \<rightharpoonup> string set"

text \<open>The probe \<^verbatim>\<open>temp_event\<close> handed to the oracle (lines 101-105).\<close>

record temp_event =
  te_activity :: string
  te_start_time :: "int option"
  te_end_time :: "int option"

text \<open>
  The oracle: its table \<open>concurrency\<close> (activity name to the collection of its
  concurrent activities; the attribute is present on every oracle of the library, so the
  default of \<^verbatim>\<open>getattr\<close> is never taken) and its method \<^verbatim>\<open>enabled_since\<close>, a function of
  the table, the trace and the probe.
\<close>

record ConcurrencyOracle =
  concurrency :: "string \<rightharpoonup> string set"
  enabled_since :: "(string \<rightharpoonup> string set) \<Rightarrow> event list \<Rightarrow> temp_event \<Rightarrow> int option"

subsection \<open>StateComputer\<close>

record StateComputer =
  n_gram_index :: NGramIndex
  reachability_graph :: ReachabilityGraph
  event_log_df :: "event list"
  bpmn_handler :: BPMNHandler
  concurrency_oracle :: ConcurrencyOracle

text \<open>The dicts of the result; a null id is \<open>None\<close>.\<close>

record ongoing_activity =
  oa_id :: "string option"
  oa_start_time :: "int option"
  oa_resource :: string
  oa_enabled_time :: "int option"

record enabled_entry =
  entry_id :: string
  entry_enabled_time :: "int option"

record control_flow_state =
  flows :: "string list"
  state_activities :: "string option list"

record case_state =
  control_flow_state :: control_flow_state
  ongoing_activities :: "ongoing_activity list"
  enabled_activities :: "enabled_entry list"
  enabled_gateways :: "enabled_entry list"

subsubsection \<open>Gateway enabled time\<close>

text \<open>\<^verbatim>\<open>_compute_gateway_enabled_time\<close> (lines 146-159).\<close>

definition compute_gateway_enabled_time ::
  "StateComputer \<Rightarrow> string \<Rightarrow> event list \<Rightarrow> event list \<Rightarrow> error + int option" where
  "compute_gateway_enabled_time sc gateway_id group_df ended_df =
     (case get_upstream_tasks_through_gateways (bpmn_handler sc) gateway_id of
        Inl e \<Rightarrow> Inl e
      | Inr tasks_upstream \<Rightarrow>
          if tasks_upstream = {} then Inr (series_max (map end_time ended_df))
          else
            (let task_names = Option.these (activities (bpmn_handler sc) ` tasks_upstream);
                 sub_df = filter (\<lambda>row. activity row \<in> task_names) ended_df;
                 max_et = series_max (map end_time sub_df)
             in Inr (if max_et = None then series_max (map end_time ended_df) else max_et)))"

subsubsection \<open>The phases of one case\<close>

text \<open>Lines 30-55: the record of one ongoing row.\<close>

definition ongoing_record :: "StateComputer \<Rightarrow> event \<Rightarrow> ongoing_activity" where
  "ongoing_record sc row =
     (let original_activity = activity row;
          task_id = get_task_id_by_name (bpmn_handler sc) original_activity;
          stime = start_time row
      in \<lparr>oa_id = task_id, oa_start_time = stime, oa_resource = resource row,
          oa_enabled_time =
            (if stime = None \<or> task_id = None then None
             else if original_activity \<notin> dom (concurrency (concurrency_oracle sc)) then None
             else enabled_time row)\<rparr>)"

text \<open>
  Lines 73-81: the scan of the incoming edges for the first one labelled \<open>t_id\<close>. Both
  sides of \<^verbatim>\<open>edge_activity == t_id\<close> may be \<^verbatim>\<open>None\<close>: the label of an edge missing from
  \<open>edge_to_activity\<close>, and the id of an unresolved activity.
\<close>

fun scan_incoming_edges ::
  "ReachabilityGraph \<Rightarrow> string option \<Rightarrow> nat list \<Rightarrow> string list \<Rightarrow> error + string list" where
  "scan_incoming_edges g t_id [] state_flows = Inr state_flows"
| "scan_incoming_edges g t_id (edge_id # rest) state_flows =
     (if edge_to_activity g edge_id = t_id then
        (case edges g edge_id of
           None \<Rightarrow> Inl (KeyError (Ident edge_id))
         | Some (source_marking_id, _) \<Rightarrow>
             (case markings g source_marking_id of
                None \<Rightarrow> Inl (KeyError (Ident source_marking_id))
              | Some source_marking \<Rightarrow> Inr (filter (\<lambda>f. f \<in> source_marking) state_flows)))
      else scan_incoming_edges g t_id rest state_flows)"

text \<open>Lines 68-81: the loop over the ongoing activities.\<close>

fun correct_flows ::
  "ReachabilityGraph \<Rightarrow> nat \<Rightarrow> ongoing_activity list \<Rightarrow> string list \<Rightarrow> error + string list" where
  "correct_flows g current_marking_id [] state_flows = Inr state_flows"
| "correct_flows g current_marking_id (act # rest) state_flows =
     (let t_id = oa_id act;
          incoming = (case incoming_edges g current_marking_id of None \<Rightarrow> [] | Some es \<Rightarrow> es)
      in case scan_incoming_edges g t_id incoming state_flows of
           Inl e \<Rightarrow> Inl e
         | Inr state_flows' \<Rightarrow> correct_flows g current_marking_id rest state_flows')"

text \<open>
  Lines 90-110: the enabled activities, over the flows still to visit. The oracle's
  table is the one attribute of \<^verbatim>\<open>self\<close> that is assigned to, so the state computer is
  returned with it.
\<close>

fun enabled_activities_loop ::
  "StateComputer \<Rightarrow> event list \<Rightarrow> event list \<Rightarrow> string list \<Rightarrow> enabled_entry list
    \<Rightarrow> StateComputer \<times> (error + enabled_entry list)" where
  "enabled_activities_loop sc group_df finished_activities [] acc = (sc, Inr acc)"
| "enabled_activities_loop sc group_df finished_activities (flow_id # rest) acc =
     (case map_of (sequence_flows (bpmn_handler sc)) flow_id of
        None \<Rightarrow> enabled_activities_loop sc group_df finished_activities rest acc
      | Some target_ref \<Rightarrow>
          (case activities (bpmn_handler sc) target_ref of
             None \<Rightarrow> enabled_activities_loop sc group_df finished_activities rest acc
           | Some activity_name \<Rightarrow>
               if length finished_activities = 0 then
                 (case py_min (map start_time group_df) of
                    Inl e \<Rightarrow> (sc, Inl e)
                  | Inr t \<Rightarrow>
                      enabled_activities_loop sc group_df finished_activities rest
                        (acc @ [\<lparr>entry_id = target_ref, entry_enabled_time = t\<rparr>]))
               else
                 (let orc = concurrency_oracle sc;
                      orc' = (if activity_name \<notin> dom (concurrency orc)
                              then orc\<lparr>concurrency := (concurrency orc)(activity_name \<mapsto> {})\<rparr>
                              else orc);
                      max_end_time = series_max (map end_time finished_activities);
                      probe = \<lparr>te_activity = activity_name,
                               te_start_time = map_option (\<lambda>t. t + 1) max_end_time,
                               te_end_time = map_option (\<lambda>t. t + 1) max_end_time\<rparr>;
                      t = enabled_since orc' (concurrency orc') finished_activities probe
                  in enabled_activities_loop (sc\<lparr>concurrency_oracle := orc'\<rparr>) group_df
                       finished_activities rest
                       (acc @ [\<lparr>entry_id = target_ref, entry_enabled_time = t\<rparr>]))))"

text \<open>
  Lines 114-127: the enabled gateways. \<^verbatim>\<open>if gw_id\<close> is false for a missing target and
  for the empty string.
\<close>

fun enabled_gateways_loop ::
  "StateComputer \<Rightarrow> event list \<Rightarrow> event list \<Rightarrow> string option set \<Rightarrow> string list
    \<Rightarrow> enabled_entry list \<Rightarrow> error + enabled_entry list" where
  "enabled_gateways_loop sc group_df finished_activities ongoing_activity_ids [] acc = Inr acc"
| "enabled_gateways_loop sc group_df finished_activities ongoing_activity_ids (flow_id # rest) acc =
     (case map_of (sequence_flows (bpmn_handler sc)) flow_id of
        None \<Rightarrow> enabled_gateways_loop sc group_df finished_activities ongoing_activity_ids rest acc
      | Some gw_id \<Rightarrow>
          if gw_id \<noteq> [] \<and> gw_id \<notin> dom (activities (bpmn_handler sc)) then
            (case get_upstream_tasks_through_gateways (bpmn_handler sc) gw_id of
               Inl e \<Rightarrow> Inl e
             | Inr tasks_upstream \<Rightarrow>
                 if Some ` tasks_upstream \<inter> ongoing_activity_ids \<noteq> {}
                 then enabled_gateways_loop sc group_df finished_activities ongoing_activity_ids rest acc
                 else
                   (case compute_gateway_enabled_time sc gw_id group_df finished_activities of
                      Inl e \<Rightarrow> Inl e
                    | Inr gw_enabled_time \<Rightarrow>
                        if gw_enabled_time \<noteq> None
                        then enabled_gateways_loop sc group_df finished_activities ongoing_activity_ids
                               rest (acc @ [\<lparr>entry_id = gw_id, entry_enabled_time = gw_enabled_time\<rparr>])
                        else enabled_gateways_loop sc group_df finished_activities ongoing_activity_ids
                               rest acc))
          else enabled_gateways_loop sc group_df finished_activities ongoing_activity_ids rest acc)"

text \<open>
  The body of the loop over the cases, lines 23-127 and 135-143: the state of one case,
  before the end-event test decides whether it is stored.
\<close>

definition case_body :: "StateComputer \<Rightarrow> event list \<Rightarrow> StateComputer \<times> (error + case_state)" where
  "case_body sc grp =
     (let group_df = sort_values grp;
          ongoing_activities_df = filter (\<lambda>row. end_time row = None) group_df;
          ongoing = map (ongoing_record sc) ongoing_activities_df;
          n_gram = TRACE_START (n_gram_index sc) # map activity group_df;
          state_marking = get_best_marking_state_for (n_gram_index sc) n_gram
      in case (case marking_to_key (reachability_graph sc) (set state_marking) of
                 None \<Rightarrow> Inr state_marking
               | Some current_marking_id \<Rightarrow>
                   correct_flows (reachability_graph sc) current_marking_id ongoing state_marking) of
           Inl e \<Rightarrow> (sc, Inl e)
         | Inr state_flows \<Rightarrow>
             (let ongoing_activity_ids = set (map oa_id ongoing);
                  finished_activities = filter (\<lambda>row. end_time row \<noteq> None) group_df
              in case enabled_activities_loop sc group_df finished_activities state_flows [] of
                   (sc', Inl e) \<Rightarrow> (sc', Inl e)
                 | (sc', Inr enabled_acts) \<Rightarrow>
                     (case enabled_gateways_loop sc' group_df finished_activities
                             ongoing_activity_ids state_flows [] of
                        Inl e \<Rightarrow> (sc', Inl e)
                      | Inr enabled_gws \<Rightarrow>
                          (sc', Inr \<lparr>control_flow_state =
                                       \<lparr>flows = state_flows,
                                        state_activities = remdups (map oa_id ongoing)\<rparr>,
                                     ongoing_activities = ongoing,
                                     enabled_activities = enabled_acts,
                                     enabled_gateways = enabled_gws\<rparr>))))"

text \<open>Line 130: the test that drops a case.\<close>

definition has_enabled_end_event :: "StateComputer \<Rightarrow> case_state \<Rightarrow> bool" where
  "has_enabled_end_event sc st \<longleftrightarrow>
     list_ex (\<lambda>gateway. is_end_event (bpmn_handler sc) (entry_id gateway)) (enabled_gateways st)"

text \<open>The loop over the groups (line 22), with the dict \<open>case_states\<close> built so far.\<close>

fun cases_loop ::
  "StateComputer \<Rightarrow> (nat \<times> event list) list \<Rightarrow> (nat \<rightharpoonup> case_state)
    \<Rightarrow> StateComputer \<times> (error + (nat \<rightharpoonup> case_state))" where
  "cases_loop sc [] case_states = (sc, Inr case_states)"
| "cases_loop sc ((cid, grp) # rest) case_states =
     (case case_body sc grp of
        (sc', Inl e) \<Rightarrow> (sc', Inl e)
      | (sc', Inr st) \<Rightarrow>
          if has_enabled_end_event sc' st then cases_loop sc' rest case_states
          else cases_loop sc' rest (case_states(cid \<mapsto> st)))"

definition compute_case_states :: "StateComputer \<Rightarrow> StateComputer \<times> (error + (nat \<rightharpoonup> case_state))" where
  "compute_case_states sc = cases_loop sc (groupby (event_log_df sc)) Map.empty"

section \<open>Notions used to state the properties\<close>

text \<open>
  One backward step of the upstream traversal: from an element that is not an activity
  to the source of a sequence flow that targets it.
\<close>

definition pred_step :: "BPMNHandler \<Rightarrow> (string \<times> string) set" where
  "pred_step h =
     {(n, src). n \<notin> dom (activities h)
        \<and> (\<exists>sf. (sf, n) \<in> set (sequence_flows h) \<and> flow_sources h sf = Some src)}"

text \<open>The invariant of the \<^verbatim>\<open>while\<close> loop of the traversal started at \<open>start\<close>.\<close>

definition upstream_inv :: "BPMNHandler \<Rightarrow> string \<Rightarrow> string set \<Rightarrow> string list \<Rightarrow> string set \<Rightarrow> bool" where
  "upstream_inv h start visited stack found \<longleftrightarrow>
     set stack \<subseteq> (pred_step h)\<^sup>* `` {start}
   \<and> visited \<subseteq> (pred_step h)\<^sup>* `` {start}
   \<and> found \<subseteq> dom (activities h) \<inter> (pred_step h)\<^sup>* `` {start}
   \<and> (\<forall>x \<in> insert start visited.
         x \<in> set stack \<or> (x \<in> dom (activities h) \<and> x \<in> found)
         \<or> (x \<notin> dom (activities h) \<and> pred_step h `` {x} \<subseteq> visited))"


text \<open>Every sequence flow has a recorded source: the two flow dicts have the same keys.\<close>

definition flows_have_sources :: "BPMNHandler \<Rightarrow> bool" where
  "flows_have_sources h \<longleftrightarrow> (\<forall>sf \<in> fst ` set (sequence_flows h). sf \<in> dom (flow_sources h))"

text \<open>The greatest end time among the rows that have one, if any.\<close>

definition latest_end :: "event list \<Rightarrow> int option" where
  "latest_end evs =
     (if Option.these (end_time ` set evs) = {} then None
      else Some (Max (Option.these (end_time ` set evs))))"

definition events_of_tasks :: "BPMNHandler \<Rightarrow> string set \<Rightarrow> event list \<Rightarrow> event list" where
  "events_of_tasks h tasks evs = filter (\<lambda>row. \<exists>t \<in> tasks. activities h t = Some (activity row)) evs"

text \<open>
  The relation between a state computer and itself later in a run: every attribute
  but the oracle's table is the same, and an entry of the table is either unchanged or
  was absent and is now empty.
\<close>

definition lazily_registered :: "StateComputer \<Rightarrow> StateComputer \<Rightarrow> bool" where
  "lazily_registered sc sc' \<longleftrightarrow>
     n_gram_index sc' = n_gram_index sc
   \<and> reachability_graph sc' = reachability_graph sc
   \<and> event_log_df sc' = event_log_df sc
   \<and> bpmn_handler sc' = bpmn_handler sc
   \<and> enabled_since (concurrency_oracle sc') = enabled_since (concurrency_oracle sc)
   \<and> (\<forall>name. concurrency (concurrency_oracle sc') name = concurrency (concurrency_oracle sc) name
        \<or> (concurrency (concurrency_oracle sc) name = None
            \<and> concurrency (concurrency_oracle sc') name = Some {}))"

text \<open>The flows phase of the body: the matcher's marking, corrected when the graph knows it.\<close>

definition corrected_marking :: "StateComputer \<Rightarrow> event list \<Rightarrow> error + string list" where
  "corrected_marking sc grp =
     (let group_df = sort_values grp;
          ongoing = map (ongoing_record sc) (filter (\<lambda>row. end_time row = None) group_df);
          state_marking = get_best_marking_state_for (n_gram_index sc)
                            (TRACE_START (n_gram_index sc) # map activity group_df)
      in case marking_to_key (reachability_graph sc) (set state_marking) of
           None \<Rightarrow> Inr state_marking
         | Some current_marking_id \<Rightarrow>
             correct_flows (reachability_graph sc) current_marking_id ongoing state_marking)"

section \<open>Example models\<close>

text \<open>
  Task \<open>A\<close> feeds task \<open>B\<close> and, directly, the gateway \<open>G\<close>; \<open>B\<close> feeds \<open>G\<close> too.
\<close>

definition diamond_handler :: BPMNHandler where
  "diamond_handler =
     \<lparr>sequence_flows = [(''f1'', ''B''), (''f2'', ''G''), (''f3'', ''G'')],
      activities = [''A'' \<mapsto> ''a'', ''B'' \<mapsto> ''b''],
      flow_sources = [''f1'' \<mapsto> ''A'', ''f2'' \<mapsto> ''B'', ''f3'' \<mapsto> ''A''],
      task_name_to_id = [''a'' \<mapsto> ''A'', ''b'' \<mapsto> ''B''],
      end_events = {}\<rparr>"


definition doc_well_formed :: element where
  "doc_well_formed =
     Element (bpmn ''definitions'') []
       [Element (bpmn ''process'') [(''id'', ''p'')]
          [Element (bpmn ''task'') [(''id'', ''A''), (''name'', ''a'')] [],
           Element (bpmn ''task'') [(''id'', ''B'')] [],
           Element (bpmn ''endEvent'') [(''id'', ''E'')] [],
           Element (bpmn ''sequenceFlow'') [(''id'', ''f1''), (''sourceRef'', ''A''), (''targetRef'', ''B'')] [],
           Element (bpmn ''sequenceFlow'') [(''id'', ''f2''), (''sourceRef'', ''B''), (''targetRef'', ''E'')] []]]"


text \<open>
  A line: start event \<open>S\<close>, task \<open>A\<close>, gateway \<open>G\<close>, task \<open>B\<close>, end event \<open>E\<close>, with its
  reachability graph, a matcher and a log of four cases.
\<close>

definition line_handler :: BPMNHandler where
  "line_handler =
     \<lparr>sequence_flows = [(''f0'', ''A''), (''f1'', ''G''), (''f2'', ''B''), (''f3'', ''E'')],
      activities = [''A'' \<mapsto> ''a'', ''B'' \<mapsto> ''b''],
      flow_sources = [''f0'' \<mapsto> ''S'', ''f1'' \<mapsto> ''A'', ''f2'' \<mapsto> ''G'', ''f3'' \<mapsto> ''B''],
      task_name_to_id = [''a'' \<mapsto> ''A'', ''b'' \<mapsto> ''B''],
      end_events = {''E''}\<rparr>"

definition line_index :: NGramIndex where
  "line_index =
     \<lparr>TRACE_START = ''START'',
      get_best_marking_state_for =
        (\<lambda>n_gram. if n_gram = [''START'', ''a'', ''b''] then [''f3'']
                   else if n_gram = [''START'', ''a''] then [''f1'']
                   else if n_gram = [''START'', ''x''] then [''f0''] else [])\<rparr>"

definition line_graph :: ReachabilityGraph where
  "line_graph =
     \<lparr>marking_to_key = [{''f0''} \<mapsto> 0, {''f1''} \<mapsto> 1, {''f3''} \<mapsto> 2],
      incoming_edges = [1 \<mapsto> [0], 2 \<mapsto> [1]],
      edge_to_activity = [0 \<mapsto> ''A'', 1 \<mapsto> ''B''],
      edges = [0 \<mapsto> (0, 1), 1 \<mapsto> (1, 2)],
      markings = [0 \<mapsto> {''f0''}, 1 \<mapsto> {''f1''}, 2 \<mapsto> {''f3''}]\<rparr>"

definition line_oracle :: ConcurrencyOracle where
  "line_oracle =
     \<lparr>concurrency = Map.empty, enabled_since = (\<lambda>table trace probe. te_start_time probe)\<rparr>"

definition ev :: "nat \<Rightarrow> string \<Rightarrow> int option \<Rightarrow> int option \<Rightarrow> event" where
  "ev c a s e =
     \<lparr>case_id = c, activity = a, resource = ''r'', start_time = s, end_time = e, enabled_time = s\<rparr>"

definition line_log :: "event list" where
  "line_log =
     [ev 1 ''a'' (Some 0) (Some 10), ev 1 ''b'' (Some 12) None,
      ev 2 ''a'' (Some 0) (Some 10),
      ev 3 ''a'' (Some 0) (Some 10), ev 3 ''b'' (Some 12) (Some 20),
      ev 4 ''x'' (Some 1) (Some 2)]"

definition line_sc :: StateComputer where
  "line_sc =
     \<lparr>n_gram_index = line_index, reachability_graph = line_graph, event_log_df = line_log,
      bpmn_handler = line_handler, concurrency_oracle = line_oracle\<rparr>"

text \<open>
  The line model with a reachability graph that knows no marking, so that no flow set is
  corrected; a model of two tasks that each lead to an end event of their own; a log with
  an ongoing event \<open>zzz\<close> that is no activity of the model; and a graph whose only
  incoming edge has no activity label.
\<close>

definition no_graph :: ReachabilityGraph where
  "no_graph =
     \<lparr>marking_to_key = Map.empty, incoming_edges = Map.empty, edge_to_activity = Map.empty,
      edges = Map.empty, markings = Map.empty\<rparr>"

definition bare_sc :: StateComputer where
  "bare_sc = line_sc\<lparr>reachability_graph := no_graph\<rparr>"

definition fork_handler :: BPMNHandler where
  "fork_handler =
     \<lparr>sequence_flows = [(''f1'', ''E1''), (''f2'', ''E2'')],
      activities = [''A'' \<mapsto> ''a'', ''B'' \<mapsto> ''b''],
      flow_sources = [''f1'' \<mapsto> ''A'', ''f2'' \<mapsto> ''B''],
      task_name_to_id = [''a'' \<mapsto> ''A'', ''b'' \<mapsto> ''B''],
      end_events = {''E1'', ''E2''}\<rparr>"

definition fork_sc :: StateComputer where
  "fork_sc =
     \<lparr>n_gram_index = \<lparr>TRACE_START = ''START'',
                       get_best_marking_state_for = (\<lambda>n_gram. [''f1'', ''f2''])\<rparr>,
      reachability_graph = no_graph,
      event_log_df = [ev 1 ''a'' (Some 0) (Some 10), ev 1 ''b'' (Some 12) None],
      bpmn_handler = fork_handler, concurrency_oracle = line_oracle\<rparr>"

definition stray_index :: NGramIndex where
  "stray_index = \<lparr>TRACE_START = ''START'', get_best_marking_state_for = (\<lambda>n_gram. [''f1''])\<rparr>"

definition stray_log :: "event list" where
  "stray_log = [ev 1 ''a'' (Some 0) (Some 10), ev 1 ''zzz'' (Some 12) None]"

definition stray_sc :: StateComputer where
  "stray_sc =
     \<lparr>n_gram_index = stray_index, reachability_graph = line_graph, event_log_df = stray_log,
      bpmn_handler = line_handler, concurrency_oracle = line_oracle\<rparr>"

definition unlabelled_graph :: ReachabilityGraph where
  "unlabelled_graph =
     \<lparr>marking_to_key = [{''f1''} \<mapsto> 1], incoming_edges = [1 \<mapsto> [7]],
      edge_to_activity = Map.empty, edges = [7 \<mapsto> (0, 1)],
      markings = [0 \<mapsto> {''f0''}, 1 \<mapsto> {''f1''}]\<rparr>"

definition unlabelled_sc :: StateComputer where
  "unlabelled_sc = stray_sc\<lparr>reachability_graph := unlabelled_graph\<rparr>"


text \<open>The states and results of the runs on these models.\<close>

definition line_sc_after :: StateComputer where
  "line_sc_after = line_sc\<lparr>concurrency_oracle := line_oracle\<lparr>concurrency := [''a'' \<mapsto> {}]\<rparr>\<rparr>"

definition waiting_for_B :: ongoing_activity where
  "waiting_for_B =
     \<lparr>oa_id = Some ''B'', oa_start_time = Some 12, oa_resource = ''r'', oa_enabled_time = None\<rparr>"

definition unresolved_zzz :: ongoing_activity where
  "unresolved_zzz =
     \<lparr>oa_id = None, oa_start_time = Some 12, oa_resource = ''r'', oa_enabled_time = None\<rparr>"

definition line_state_1 :: case_state where
  "line_state_1 =
     \<lparr>control_flow_state = \<lparr>flows = [], state_activities = [Some ''B'']\<rparr>,
      ongoing_activities = [waiting_for_B], enabled_activities = [], enabled_gateways = []\<rparr>"

definition line_state_2 :: case_state where
  "line_state_2 =
     \<lparr>control_flow_state = \<lparr>flows = [''f1''], state_activities = []\<rparr>,
      ongoing_activities = [], enabled_activities = [],
      enabled_gateways = [\<lparr>entry_id = ''G'', entry_enabled_time = Some 10\<rparr>]\<rparr>"

definition line_state_4 :: case_state where
  "line_state_4 =
     \<lparr>control_flow_state = \<lparr>flows = [''f0''], state_activities = []\<rparr>,
      ongoing_activities = [],
      enabled_activities = [\<lparr>entry_id = ''A'', entry_enabled_time = Some 3\<rparr>],
      enabled_gateways = []\<rparr>"

definition line_result :: "nat \<rightharpoonup> case_state" where
  "line_result = [1 \<mapsto> line_state_1, 2 \<mapsto> line_state_2, 4 \<mapsto> line_state_4]"

definition bare_state_1 :: case_state where
  "bare_state_1 =
     \<lparr>control_flow_state = \<lparr>flows = [''f3''], state_activities = [Some ''B'']\<rparr>,
      ongoing_activities = [waiting_for_B], enabled_activities = [], enabled_gateways = []\<rparr>"

definition bare_result :: "nat \<rightharpoonup> case_state" where
  "bare_result = [1 \<mapsto> bare_state_1, 2 \<mapsto> line_state_2, 4 \<mapsto> line_state_4]"

definition bare_sc_after :: StateComputer where
  "bare_sc_after = bare_sc\<lparr>concurrency_oracle := line_oracle\<lparr>concurrency := [''a'' \<mapsto> {}]\<rparr>\<rparr>"

definition fork_state :: case_state where
  "fork_state =
     \<lparr>control_flow_state = \<lparr>flows = [''f1'', ''f2''], state_activities = [Some ''B'']\<rparr>,
      ongoing_activities = [waiting_for_B], enabled_activities = [],
      enabled_gateways = [\<lparr>entry_id = ''E1'', entry_enabled_time = Some 10\<rparr>]\<rparr>"

definition stray_state :: case_state where
  "stray_state =
     \<lparr>control_flow_state = \<lparr>flows = [''f1''], state_activities = [None]\<rparr>,
      ongoing_activities = [unresolved_zzz], enabled_activities = [],
      enabled_gateways = [\<lparr>entry_id = ''G'', entry_enabled_time = Some 10\<rparr>]\<rparr>"

definition unlabelled_state :: case_state where
  "unlabelled_state =
     \<lparr>control_flow_state = \<lparr>flows = [], state_activities = [None]\<rparr>,
      ongoing_activities = [unresolved_zzz], enabled_activities = [], enabled_gateways = []\<rparr>"

section \<open>Properties\<close>

subsection \<open>The upstream traversal\<close>

lemma push_sources_result:
  "push_sources h current items visited stack = Inr (visited', stack')
   \<Longrightarrow> visited' = visited \<union> {src. \<exists>sf. (sf, current) \<in> set items \<and> flow_sources h sf = Some src}
       \<and> set stack' = set stack \<union> (visited' - visited)"
proof (induction h current items visited stack rule: push_sources.induct)
  case (1 h current visited stack)
  then show ?case by simp
next
  case (2 h current sf_id tgt items visited stack)
  show ?case
  proof (cases "tgt = current")
    case False
    with 2 show ?thesis by auto
  next
    case True
    with "2.prems" obtain src where src: "flow_sources h sf_id = Some src"
      by (auto split: option.splits)
    show ?thesis
    proof (cases "src \<in> visited")
      case True
      with "2.prems" \<open>tgt = current\<close> src
      have "push_sources h current items visited stack = Inr (visited', stack')" by simp
      from "2.IH"(2) [OF \<open>tgt = current\<close> src _ this] True src \<open>tgt = current\<close>
      show ?thesis by auto
    next
      case False
      with "2.prems" \<open>tgt = current\<close> src
      have "push_sources h current items (insert src visited) (src # stack) = Inr (visited', stack')"
        by simp
      from "2.IH"(1) [OF \<open>tgt = current\<close> src False this] False src \<open>tgt = current\<close>
      show ?thesis by auto
    qed
  qed
qed

lemma push_sources_error:
  "push_sources h current items visited stack = Inl e
   \<Longrightarrow> \<exists>sf tgt. (sf, tgt) \<in> set items \<and> flow_sources h sf = None \<and> e = KeyError (Name sf)"
  by (induction h current items visited stack rule: push_sources.induct)
     (auto split: if_splits option.splits)

lemma upstream_loop_error:
  "upstream_loop h visited stack found = Inl e
   \<Longrightarrow> \<exists>sf tgt. (sf, tgt) \<in> set (sequence_flows h) \<and> flow_sources h sf = None \<and> e = KeyError (Name sf)"
proof (induction h visited stack found rule: upstream_loop.induct)
  case (1 h visited tasks_found)
  then show ?case by simp
next
  case (2 h visited current stack tasks_found)
  show ?case
  proof (cases "current \<in> dom (activities h)")
    case True
    with 2 show ?thesis by simp
  next
    case False
    show ?thesis
    proof (cases "push_sources h current (sequence_flows h) visited stack")
      case (Inl e')
      with False "2.prems" have "e' = e" by simp
      with Inl push_sources_error show ?thesis by blast
    next
      case (Inr p)
      obtain visited' stack' where p: "p = (visited', stack')" by (cases p)
      with Inr False "2.prems" have "upstream_loop h visited' stack' tasks_found = Inl e"
        by simp
      from "2.IH"(2) [OF False Inr p [symmetric] this] show ?thesis .
    qed
  qed
qed

lemma upstream_loop_correct:
  "upstream_loop h visited stack found = Inr res \<Longrightarrow> upstream_inv h start visited stack found
   \<Longrightarrow> res = dom (activities h) \<inter> (pred_step h)\<^sup>* `` {start}"
proof (induction h visited stack found rule: upstream_loop.induct)
  case (1 h visited tasks_found)
  let ?R = "pred_step h" and ?C = "insert start visited"
  from "1.prems" have res: "res = tasks_found" by simp
  have closed: "y \<in> ?C" if "x \<in> ?C" "(x, y) \<in> ?R" for x y
  proof -
    from that(2) have "x \<notin> dom (activities h)" by (auto simp: pred_step_def)
    with "1.prems"(2) that show ?thesis by (auto simp: upstream_inv_def)
  qed
  have reach: "y \<in> ?C" if "(start, y) \<in> ?R\<^sup>*" for y
    using that
  proof (induction rule: rtrancl_induct)
    case base
    show ?case by simp
  next
    case (step y z)
    from closed [OF step.IH step.hyps(2)] show ?case .
  qed
  have "dom (activities h) \<inter> ?R\<^sup>* `` {start} \<subseteq> tasks_found"
  proof
    fix a assume a: "a \<in> dom (activities h) \<inter> ?R\<^sup>* `` {start}"
    then have "a \<in> ?C" using reach by auto
    with "1.prems"(2) a show "a \<in> tasks_found" by (auto simp: upstream_inv_def)
  qed
  moreover from "1.prems"(2) have "tasks_found \<subseteq> dom (activities h) \<inter> ?R\<^sup>* `` {start}"
    by (simp add: upstream_inv_def)
  ultimately show ?case using res by blast
next
  case (2 h visited current stack tasks_found)
  let ?R = "pred_step h"
  from "2.prems"(2) have cur: "(start, current) \<in> ?R\<^sup>*"
    by (simp add: upstream_inv_def)
  show ?case
  proof (cases "current \<in> dom (activities h)")
    case True
    with "2.prems" have run: "upstream_loop h visited stack (insert current tasks_found) = Inr res"
      by simp
    have "upstream_inv h start visited stack (insert current tasks_found)"
      using "2.prems"(2) True cur unfolding upstream_inv_def by auto
    from "2.IH"(1) [OF True run this] show ?thesis .
  next
    case False
    with "2.prems" obtain visited' stack' where
      push: "push_sources h current (sequence_flows h) visited stack = Inr (visited', stack')"
      and run: "upstream_loop h visited' stack' tasks_found = Inr res"
      by (auto split: sum.splits)
    from push_sources_result [OF push] False
    have v': "visited' = visited \<union> ?R `` {current}"
      and s': "set stack' = set stack \<union> (visited' - visited)"
      by (auto simp: pred_step_def)
    have "?R `` {current} \<subseteq> ?R\<^sup>* `` {start}"
      using cur by (auto intro: rtrancl_into_rtrancl)
    then have "upstream_inv h start visited' stack' tasks_found"
      using "2.prems"(2) False unfolding upstream_inv_def v' s' [unfolded v']
      by auto
    from "2.IH"(2) [OF False push refl run this] show ?thesis .
  qed
qed

text \<open>
  C8 (as amended). For every model and every start element the backward traversal
  returns: either it raises the \<^verbatim>\<open>KeyError\<close> of a sequence flow that has no recorded
  source, or it yields exactly the activities that a backward path from the start
  reaches through elements that are not activities. A path is never continued beyond an
  activity, but a task upstream of a reached task is in the result when such a path of
  its own reaches it.
\<close>

theorem upstream_tasks_characterisation:
  "(\<exists>sf tgt. (sf, tgt) \<in> set (sequence_flows h) \<and> flow_sources h sf = None
       \<and> get_upstream_tasks_through_gateways h start = Inl (KeyError (Name sf)))
   \<or> get_upstream_tasks_through_gateways h start
       = Inr {a \<in> dom (activities h). (start, a) \<in> (pred_step h)\<^sup>*}"
proof (cases "get_upstream_tasks_through_gateways h start")
  case (Inl e)
  then show ?thesis
    using upstream_loop_error [of h "{}" "[start]" "{}" e]
    by (auto simp: get_upstream_tasks_through_gateways_def)
next
  case (Inr res)
  have "upstream_inv h start {} [start] {}"
    by (simp add: upstream_inv_def)
  moreover from Inr have "upstream_loop h {} [start] {} = Inr res"
    by (simp add: get_upstream_tasks_through_gateways_def)
  ultimately have "res = dom (activities h) \<inter> (pred_step h)\<^sup>* `` {start}"
    by (rule upstream_loop_correct [rotated])
  then have "res = {a \<in> dom (activities h). (start, a) \<in> (pred_step h)\<^sup>*}"
    by auto
  with Inr show ?thesis by simp
qed


theorem upstream_tasks_characterisation_witness:
  "get_upstream_tasks_through_gateways diamond_handler ''G''
     = Inr {a \<in> dom (activities diamond_handler). (''G'', a) \<in> (pred_step diamond_handler)\<^sup>*}
   \<and> get_upstream_tasks_through_gateways diamond_handler ''G'' = Inr {''B'', ''A''}"
proof -
  have run: "get_upstream_tasks_through_gateways diamond_handler ''G'' = Inr {''B'', ''A''}"
    by (simp add: get_upstream_tasks_through_gateways_def diamond_handler_def)
  with upstream_tasks_characterisation [of diamond_handler "''G''"] show ?thesis
    by auto
qed

text \<open>
  C8 as stated fails: in the result for \<open>G\<close> are both \<open>B\<close> and \<open>A\<close>, although \<open>A\<close> is
  strictly upstream of \<open>B\<close> (flow \<open>f1\<close> leads from \<open>A\<close> to \<open>B\<close>).
\<close>

theorem upstream_of_reached_task_counterexample:
  "get_upstream_tasks_through_gateways diamond_handler ''G'' = Inr {''B'', ''A''}
   \<and> map_of (sequence_flows diamond_handler) ''f1'' = Some ''B''
   \<and> flow_sources diamond_handler ''f1'' = Some ''A''
   \<and> ''A'' \<in> dom (activities diamond_handler) \<and> ''B'' \<in> dom (activities diamond_handler)"
  by (simp add: get_upstream_tasks_through_gateways_def diamond_handler_def)

subsection \<open>Model loading\<close>












text \<open>A complete document loads, and every loaded model has a source for each flow.\<close>

lemma parse_well_formed_document:
  "parse_bpmn_xml (Some doc_well_formed) =
     Inr \<lparr>sequence_flows = [(''f1'', ''B''), (''f2'', ''E'')],
          activities = [''A'' \<mapsto> ''a'', ''B'' \<mapsto> ''Unnamed Task B''],
          flow_sources = [''f1'' \<mapsto> ''A'', ''f2'' \<mapsto> ''B''],
          task_name_to_id = [''a'' \<mapsto> ''A'', ''Unnamed Task B'' \<mapsto> ''B''],
          end_events = {''E''}\<rparr>"
  by (simp add: parse_bpmn_xml_def doc_well_formed_def findall_def bpmn_def init_handler_def Let_def)

lemma dict_set_keys: "fst ` set (dict_set d k v) = insert k (fst ` set d)"
  by (induction d k v rule: dict_set.induct) auto

lemma parse_tasks_flows:
  "parse_tasks h els = Inr h' \<Longrightarrow> sequence_flows h' = sequence_flows h \<and> flow_sources h' = flow_sources h"
  by (induction els arbitrary: h) (auto split: option.splits simp: Let_def)

lemma parse_end_events_flows:
  "parse_end_events h els = Inr h' \<Longrightarrow> sequence_flows h' = sequence_flows h \<and> flow_sources h' = flow_sources h"
  by (induction els arbitrary: h) (auto split: option.splits)

lemma parse_sequence_flows_sources:
  "parse_sequence_flows h els = Inr h' \<Longrightarrow> flows_have_sources h \<Longrightarrow> flows_have_sources h'"
proof (induction els arbitrary: h)
  case Nil
  then show ?case by simp
next
  case (Cons el els)
  from Cons.prems(1) obtain sf tgt src where
    "parse_sequence_flows (h\<lparr>sequence_flows := dict_set (sequence_flows h) sf tgt,
        flow_sources := (flow_sources h)(sf \<mapsto> src)\<rparr>) els = Inr h'"
    by (auto split: option.splits)
  moreover have "flows_have_sources (h\<lparr>sequence_flows := dict_set (sequence_flows h) sf tgt,
        flow_sources := (flow_sources h)(sf \<mapsto> src)\<rparr>)"
    using Cons.prems(2) by (auto simp: flows_have_sources_def dict_set_keys)
  ultimately show ?case by (rule Cons.IH)
qed

lemma parse_bpmn_xml_flows_have_sources:
  assumes "parse_bpmn_xml src = Inr h"
  shows "flows_have_sources h"
proof -
  from assms obtain root h1 h2 h3 where
    t: "parse_tasks init_handler (findall root (bpmn ''task'')) = Inr h1"
    and e1: "parse_end_events h1 (findall root (bpmn ''endEvent'')) = Inr h2"
    and e2: "parse_end_events h2 (findall root ''endEvent'') = Inr h3"
    and f: "parse_sequence_flows h3 (findall root (bpmn ''sequenceFlow'')) = Inr h"
    by (auto simp: parse_bpmn_xml_def split: sum.splits option.splits)
  have "flows_have_sources init_handler"
    by (simp add: flows_have_sources_def init_handler_def)
  with parse_tasks_flows [OF t] parse_end_events_flows [OF e1] parse_end_events_flows [OF e2]
  have "flows_have_sources h3"
    by (simp add: flows_have_sources_def)
  with f show ?thesis by (rule parse_sequence_flows_sources)
qed


subsection \<open>Gateway enabled time\<close>

lemma series_max_Max:
  "series_max xs = (if Option.these (set xs) = {} then None else Some (Max (Option.these (set xs))))"
proof (induction xs rule: series_max.induct)
  case 1
  show ?case by simp
next
  case (2 xs)
  then show ?case by simp
next
  case (3 a xs)
  have fin: "finite (Option.these (set xs))"
    by (simp add: Option.these_def)
  show ?case
  proof (cases "Option.these (set xs) = {}")
    case True
    with 3 show ?thesis by simp
  next
    case False
    with 3 fin show ?thesis by (simp add: max.commute)
  qed
qed

lemma series_max_end_time: "series_max (map end_time evs) = latest_end evs"
  by (simp add: series_max_Max latest_end_def)

lemma latest_end_defined:
  assumes "evs \<noteq> []" and "\<forall>row \<in> set evs. end_time row \<noteq> None"
  shows "\<exists>m. latest_end evs = Some m"
proof -
  from assms obtain row where "row \<in> set evs" by (cases evs) auto
  with assms(2) obtain t where "end_time row = Some t" by auto
  with \<open>row \<in> set evs\<close> have "t \<in> Option.these (end_time ` set evs)"
    by (force simp: Option.these_def)
  then show ?thesis by (auto simp: latest_end_def)
qed

text \<open>
  C5. When the upstream traversal of the gateway returns the task set
  \<open>tasks_upstream\<close>: with no upstream task the helper returns the greatest end time of
  all finished events; otherwise the greatest end time of the finished events whose
  activity is the name of an upstream task, and the greatest end time of all finished
  events when there is no such event; and the value is defined whenever there is a
  finished event.
\<close>

theorem gateway_enabled_time_fallback:
  assumes "get_upstream_tasks_through_gateways (bpmn_handler sc) gateway_id = Inr tasks_upstream"
  shows "(tasks_upstream = {} \<longrightarrow>
            compute_gateway_enabled_time sc gateway_id group_df ended_df = Inr (latest_end ended_df))
       \<and> (tasks_upstream \<noteq> {} \<longrightarrow>
            compute_gateway_enabled_time sc gateway_id group_df ended_df =
              Inr (case latest_end (events_of_tasks (bpmn_handler sc) tasks_upstream ended_df) of
                     None \<Rightarrow> latest_end ended_df
                   | Some m \<Rightarrow> Some m))
       \<and> (ended_df \<noteq> [] \<and> (\<forall>row \<in> set ended_df. end_time row \<noteq> None) \<longrightarrow>
            (\<exists>m. compute_gateway_enabled_time sc gateway_id group_df ended_df = Inr (Some m)))"
proof -
  let ?h = "bpmn_handler sc"
  have names: "filter (\<lambda>row. activity row \<in> Option.these (activities ?h ` tasks_upstream)) ended_df
               = events_of_tasks ?h tasks_upstream ended_df"
    by (auto simp: events_of_tasks_def Option.these_def image_iff intro!: filter_cong)
  have empty: "tasks_upstream = {} \<Longrightarrow>
      compute_gateway_enabled_time sc gateway_id group_df ended_df = Inr (latest_end ended_df)"
    using assms by (simp add: compute_gateway_enabled_time_def series_max_end_time)
  have nonempty: "tasks_upstream \<noteq> {} \<Longrightarrow>
      compute_gateway_enabled_time sc gateway_id group_df ended_df =
        Inr (case latest_end (events_of_tasks ?h tasks_upstream ended_df) of
               None \<Rightarrow> latest_end ended_df | Some m \<Rightarrow> Some m)"
    using assms
    by (auto simp: compute_gateway_enabled_time_def series_max_end_time names Let_def
        split: option.splits)
  have defined: "\<exists>m. compute_gateway_enabled_time sc gateway_id group_df ended_df = Inr (Some m)"
    if "ended_df \<noteq> []" "\<forall>row \<in> set ended_df. end_time row \<noteq> None"
  proof -
    from latest_end_defined [OF that] obtain m where m: "latest_end ended_df = Some m" ..
    show ?thesis
    proof (cases "tasks_upstream = {}")
      case True
      with empty m show ?thesis by simp
    next
      case False
      with nonempty m show ?thesis by (auto split: option.splits)
    qed
  qed
  from empty nonempty defined show ?thesis by blast
qed

theorem gateway_enabled_time_fallback_witness:
  "get_upstream_tasks_through_gateways (bpmn_handler line_sc) ''G'' = Inr {''A''}
   \<and> compute_gateway_enabled_time line_sc ''G'' [] [ev 2 ''a'' (Some 0) (Some 10)] = Inr (Some 10)
   \<and> compute_gateway_enabled_time line_sc ''G'' [] [ev 2 ''a'' (Some 0) (Some 10)] =
       Inr (case latest_end (events_of_tasks (bpmn_handler line_sc) {''A''}
                               [ev 2 ''a'' (Some 0) (Some 10)]) of
              None \<Rightarrow> latest_end [ev 2 ''a'' (Some 0) (Some 10)]
            | Some m \<Rightarrow> Some m)"
proof -
  have up: "get_upstream_tasks_through_gateways (bpmn_handler line_sc) ''G'' = Inr {''A''}"
    by (simp add: get_upstream_tasks_through_gateways_def line_sc_def line_handler_def)
  have run: "compute_gateway_enabled_time line_sc ''G'' [] [ev 2 ''a'' (Some 0) (Some 10)]
             = Inr (Some 10)"
    by (simp add: compute_gateway_enabled_time_def get_upstream_tasks_through_gateways_def
        line_sc_def line_handler_def ev_def)
  from up run gateway_enabled_time_fallback [OF up, of "[]" "[ev 2 ''a'' (Some 0) (Some 10)]"]
  show ?thesis by simp
qed

subsection \<open>The frame of a run\<close>

lemma lazily_registered_refl: "lazily_registered sc sc"
  by (simp add: lazily_registered_def)

lemma lazily_registered_trans:
  "lazily_registered sc1 sc2 \<Longrightarrow> lazily_registered sc2 sc3 \<Longrightarrow> lazily_registered sc1 sc3"
  unfolding lazily_registered_def by (metis option.distinct(1))

lemma register_lazily:
  "lazily_registered sc
     (sc\<lparr>concurrency_oracle :=
          (if name \<notin> dom (concurrency (concurrency_oracle sc))
           then (concurrency_oracle sc)\<lparr>concurrency := (concurrency (concurrency_oracle sc))(name \<mapsto> {})\<rparr>
           else concurrency_oracle sc)\<rparr>)"
  by (auto simp: lazily_registered_def)

lemma enabled_activities_loop_frame:
  "enabled_activities_loop sc group_df finished fls acc = (sc', r) \<Longrightarrow> lazily_registered sc sc'"
proof (induction sc group_df finished fls acc rule: enabled_activities_loop.induct)
  case (1 sc group_df finished acc)
  then show ?case by (simp add: lazily_registered_refl)
next
  case (2 sc group_df finished flow_id rest acc)
  show ?case
  proof (cases "map_of (sequence_flows (bpmn_handler sc)) flow_id")
    case None
    with 2 show ?thesis by simp
  next
    case (Some target_ref)
    note tgt = this
    show ?thesis
    proof (cases "activities (bpmn_handler sc) target_ref")
      case None
      with 2 tgt show ?thesis by simp
    next
      case (Some activity_name)
      note act = this
      show ?thesis
      proof (cases "length finished = 0")
        case True
        show ?thesis
        proof (cases "py_min (map start_time group_df)")
          case (Inl e)
          with "2.prems" tgt act True show ?thesis by (simp add: lazily_registered_refl)
        next
          case (Inr t)
          with "2.prems" tgt act True "2.IH"(3) [OF tgt act True Inr] show ?thesis by simp
        qed
      next
        case False
        let ?sc1 = "sc\<lparr>concurrency_oracle :=
          (if activity_name \<notin> dom (concurrency (concurrency_oracle sc))
           then (concurrency_oracle sc)\<lparr>concurrency := (concurrency (concurrency_oracle sc))(activity_name \<mapsto> {})\<rparr>
           else concurrency_oracle sc)\<rparr>"
        from "2.prems" tgt act False
        have "lazily_registered ?sc1 sc'"
          by (intro "2.IH"(4) [OF tgt act False refl refl refl refl refl]) (simp add: Let_def)
        with register_lazily [of sc activity_name] show ?thesis
          by (rule lazily_registered_trans)
      qed
    qed
  qed
qed

lemma case_body_frame: "case_body sc grp = (sc', r) \<Longrightarrow> lazily_registered sc sc'"
  unfolding case_body_def Let_def
  by (auto split: sum.splits prod.splits option.splits
      dest: enabled_activities_loop_frame simp: lazily_registered_refl)

lemma cases_loop_frame: "cases_loop sc groups acc = (sc', r) \<Longrightarrow> lazily_registered sc sc'"
proof (induction sc groups acc rule: cases_loop.induct)
  case (1 sc case_states)
  then show ?case by (simp add: lazily_registered_refl)
next
  case (2 sc cid grp rest case_states)
  obtain sc1 r1 where body: "case_body sc grp = (sc1, r1)" by (cases "case_body sc grp")
  from case_body_frame [OF body] have step: "lazily_registered sc sc1" .
  show ?case
  proof (cases r1)
    case (Inl e)
    with body "2.prems" step show ?thesis by simp
  next
    case (Inr st)
    show ?thesis
    proof (cases "has_enabled_end_event sc1 st")
      case True
      with body Inr "2.prems" have "cases_loop sc1 rest case_states = (sc', r)" by simp
      from "2.IH"(1) [OF body [symmetric] Inr True this] step show ?thesis
        by (blast intro: lazily_registered_trans)
    next
      case False
      with body Inr "2.prems" have "cases_loop sc1 rest (case_states(cid \<mapsto> st)) = (sc', r)" by simp
      from "2.IH"(2) [OF body [symmetric] Inr False this] step show ?thesis
        by (blast intro: lazily_registered_trans)
    qed
  qed
qed

text \<open>
  C9. A run of \<^verbatim>\<open>compute_case_states\<close>, whether it returns or raises, leaves the n-gram
  index, the reachability graph, the event log and the model adapter as they were, and
  the oracle's method too; each entry of the oracle's concurrency table is either
  unchanged or was absent and is now the empty entry.
\<close>

theorem only_oracle_table_changes:
  assumes "compute_case_states sc = (sc', r)"
  shows "n_gram_index sc' = n_gram_index sc
       \<and> reachability_graph sc' = reachability_graph sc
       \<and> event_log_df sc' = event_log_df sc
       \<and> bpmn_handler sc' = bpmn_handler sc
       \<and> enabled_since (concurrency_oracle sc') = enabled_since (concurrency_oracle sc)
       \<and> (\<forall>name. concurrency (concurrency_oracle sc') name = concurrency (concurrency_oracle sc) name
            \<or> (concurrency (concurrency_oracle sc) name = None
                \<and> concurrency (concurrency_oracle sc') name = Some {}))"
  using cases_loop_frame [of sc "groupby (event_log_df sc)" Map.empty sc' r] assms
  by (simp add: compute_case_states_def lazily_registered_def)

subsection \<open>The flows of a case\<close>

lemma scan_incoming_edges_subset:
  "scan_incoming_edges g t_id es state_flows = Inr fl \<Longrightarrow> set fl \<subseteq> set state_flows"
  by (induction g t_id es state_flows rule: scan_incoming_edges.induct)
     (auto split: if_splits option.splits)

lemma correct_flows_subset:
  "correct_flows g cur ongoing state_flows = Inr fl \<Longrightarrow> set fl \<subseteq> set state_flows"
proof (induction g cur ongoing state_flows rule: correct_flows.induct)
  case (1 g cur state_flows)
  then show ?case by simp
next
  case (2 g cur act rest state_flows)
  let ?incoming = "case incoming_edges g cur of None \<Rightarrow> [] | Some es \<Rightarrow> es"
  from "2.prems" obtain fl1 where
    scan: "scan_incoming_edges g (oa_id act) ?incoming state_flows = Inr fl1"
    and rest: "correct_flows g cur rest fl1 = Inr fl"
    by (auto simp: Let_def split: sum.splits)
  from "2.IH" [OF refl refl scan rest] scan_incoming_edges_subset [OF scan]
  show ?case by blast
qed

lemma case_body_Inr:
  assumes "case_body sc grp = (sc', Inr st)"
  shows "\<exists>state_flows.
           corrected_marking sc grp = Inr state_flows
         \<and> enabled_activities_loop sc (sort_values grp)
             (filter (\<lambda>row. end_time row \<noteq> None) (sort_values grp)) state_flows []
             = (sc', Inr (enabled_activities st))
         \<and> enabled_gateways_loop sc' (sort_values grp)
             (filter (\<lambda>row. end_time row \<noteq> None) (sort_values grp))
             (set (map oa_id (ongoing_activities st))) state_flows []
             = Inr (enabled_gateways st)
         \<and> flows (control_flow_state st) = state_flows
         \<and> state_activities (control_flow_state st) = remdups (map oa_id (ongoing_activities st))
         \<and> ongoing_activities st
             = map (ongoing_record sc) (filter (\<lambda>row. end_time row = None) (sort_values grp))"
  using assms unfolding case_body_def corrected_marking_def Let_def
  by (auto split: sum.splits prod.splits simp: image_image)

lemma case_body_flows_subset:
  assumes "case_body sc grp = (sc', Inr st)"
  shows "set (flows (control_flow_state st))
         \<subseteq> set (get_best_marking_state_for (n_gram_index sc)
                  (TRACE_START (n_gram_index sc) # map activity (sort_values grp)))"
proof -
  from case_body_Inr [OF assms] have "corrected_marking sc grp = Inr (flows (control_flow_state st))"
    by auto
  then show ?thesis
    unfolding corrected_marking_def Let_def
    by (auto split: option.splits dest: correct_flows_subset)
qed

lemma groupby_distinct: "distinct (map fst (groupby df))"
  by (simp add: groupby_def comp_def)

lemma groupby_member:
  "(cid, grp) \<in> set (groupby df)
   \<longleftrightarrow> cid \<in> case_id ` set df \<and> grp = filter (\<lambda>row. case_id row = cid) df"
  by (auto simp: groupby_def)

lemma cases_loop_other:
  "cases_loop sc groups acc = (sc', Inr res) \<Longrightarrow> cid \<notin> fst ` set groups \<Longrightarrow> res cid = acc cid"
proof (induction sc groups acc rule: cases_loop.induct)
  case (1 sc case_states)
  then show ?case by simp
next
  case (2 sc c grp rest case_states)
  obtain sc1 r1 where body: "case_body sc grp = (sc1, r1)" by (cases "case_body sc grp")
  from "2.prems"(2) have ne: "cid \<noteq> c" and notin: "cid \<notin> fst ` set rest" by auto
  show ?case
  proof (cases r1)
    case (Inl e)
    with body "2.prems" show ?thesis by simp
  next
    case (Inr st)
    show ?thesis
    proof (cases "has_enabled_end_event sc1 st")
      case True
      with body Inr "2.prems" have "cases_loop sc1 rest case_states = (sc', Inr res)" by simp
      from "2.IH"(1) [OF body [symmetric] Inr True this notin] show ?thesis .
    next
      case False
      with body Inr "2.prems"
      have "cases_loop sc1 rest (case_states(c \<mapsto> st)) = (sc', Inr res)" by simp
      from "2.IH"(2) [OF body [symmetric] Inr False this notin] ne show ?thesis by simp
    qed
  qed
qed

lemma cases_loop_outcome:
  "cases_loop sc groups acc = (sc', Inr res) \<Longrightarrow> distinct (map fst groups)
   \<Longrightarrow> (cid, grp) \<in> set groups
   \<Longrightarrow> \<exists>sc1 sc2 st. lazily_registered sc sc1 \<and> case_body sc1 grp = (sc2, Inr st)
         \<and> res cid = (if has_enabled_end_event sc2 st then acc cid else Some st)"
proof (induction sc groups acc rule: cases_loop.induct)
  case (1 sc case_states)
  then show ?case by simp
next
  case (2 sc c g rest case_states)
  obtain sca r1 where body: "case_body sc g = (sca, r1)" by (cases "case_body sc g")
  from "2.prems"(1) body obtain sta where r1: "r1 = Inr sta"
    by (cases r1) auto
  let ?acc = "if has_enabled_end_event sca sta then case_states else case_states(c \<mapsto> sta)"
  from "2.prems"(1) body r1 have run: "cases_loop sca rest ?acc = (sc', Inr res)"
    by (simp split: if_splits)
  from "2.prems"(2) have c_notin: "c \<notin> fst ` set rest" and dist: "distinct (map fst rest)"
    by auto
  show ?case
  proof (cases "(cid, grp) = (c, g)")
    case True
    from cases_loop_other [OF run] c_notin True have "res cid = ?acc cid"
      by simp
    with True body r1 lazily_registered_refl [of sc] show ?thesis
      by (intro exI [of _ sc] exI [of _ sca] exI [of _ sta]) simp
  next
    case False
    with "2.prems"(3) have mem: "(cid, grp) \<in> set rest" by auto
    with c_notin have ne: "cid \<noteq> c" by force
    have "\<exists>sc1 sc2 st. lazily_registered sca sc1 \<and> case_body sc1 grp = (sc2, Inr st)
           \<and> res cid = (if has_enabled_end_event sc2 st then ?acc cid else Some st)"
    proof (cases "has_enabled_end_event sca sta")
      case True
      with run have "cases_loop sca rest case_states = (sc', Inr res)" by simp
      from "2.IH"(1) [OF body [symmetric] r1 True this dist mem] True show ?thesis by simp
    next
      case False
      with run have "cases_loop sca rest (case_states(c \<mapsto> sta)) = (sc', Inr res)" by simp
      from "2.IH"(2) [OF body [symmetric] r1 False this dist mem] False show ?thesis by simp
    qed
    then obtain sc1 sc2 st where "lazily_registered sca sc1" "case_body sc1 grp = (sc2, Inr st)"
      "res cid = (if has_enabled_end_event sc2 st then ?acc cid else Some st)"
      by blast
    moreover from case_body_frame [OF body] have "lazily_registered sc sca" .
    ultimately show ?thesis using ne
      by (intro exI [of _ sc1] exI [of _ sc2] exI [of _ st])
         (auto intro: lazily_registered_trans)
  qed
qed

lemma has_enabled_end_event_frame:
  "bpmn_handler sc' = bpmn_handler sc \<Longrightarrow> has_enabled_end_event sc' st = has_enabled_end_event sc st"
  by (simp add: has_enabled_end_event_def)

text \<open>What a run says about one case of the log.\<close>

lemma run_case:
  assumes "compute_case_states sc = (sc', Inr res)" and "cid \<in> case_id ` set (event_log_df sc)"
  shows "\<exists>sc1 sc2 st. lazily_registered sc sc1
           \<and> case_body sc1 (filter (\<lambda>row. case_id row = cid) (event_log_df sc)) = (sc2, Inr st)
           \<and> res cid = (if has_enabled_end_event sc st then None else Some st)"
proof -
  let ?grp = "filter (\<lambda>row. case_id row = cid) (event_log_df sc)"
  from assms(2) have mem: "(cid, ?grp) \<in> set (groupby (event_log_df sc))"
    by (simp add: groupby_member)
  from assms(1) have "cases_loop sc (groupby (event_log_df sc)) Map.empty = (sc', Inr res)"
    by (simp add: compute_case_states_def)
  from cases_loop_outcome [OF this groupby_distinct mem]
  obtain sc1 sc2 st where a: "lazily_registered sc sc1" and b: "case_body sc1 ?grp = (sc2, Inr st)"
    and c: "res cid = (if has_enabled_end_event sc2 st then None else Some st)"
    by auto
  from a case_body_frame [OF b] have "bpmn_handler sc2 = bpmn_handler sc"
    by (simp add: lazily_registered_def)
  with a b c has_enabled_end_event_frame [of sc2 sc st] show ?thesis by auto
qed

lemma run_emitted:
  assumes "compute_case_states sc = (sc', Inr res)" and "res cid = Some st"
  shows "\<exists>sc1 sc2. lazily_registered sc sc1
           \<and> case_body sc1 (filter (\<lambda>row. case_id row = cid) (event_log_df sc)) = (sc2, Inr st)
           \<and> \<not> has_enabled_end_event sc st"
proof -
  have "cid \<in> case_id ` set (event_log_df sc)"
  proof (rule ccontr)
    assume "cid \<notin> case_id ` set (event_log_df sc)"
    then have "cid \<notin> fst ` set (groupby (event_log_df sc))"
      by (force simp: groupby_member)
    with assms(1) cases_loop_other [of sc "groupby (event_log_df sc)" Map.empty sc' res cid]
    have "res cid = None" by (simp add: compute_case_states_def)
    with assms(2) show False by simp
  qed
  from run_case [OF assms(1) this] assms(2) show ?thesis
    by (auto split: if_splits)
qed

text \<open>
  C1. For every emitted case, the flows of its control-flow state are among the marking
  the trace matcher returns for the trace of the case: the start sentinel followed by
  the activity names of the case in start-time order.
\<close>

theorem flows_within_matcher_marking:
  assumes "compute_case_states sc = (sc', Inr case_states)" and "case_states cid = Some st"
  shows "set (flows (control_flow_state st))
         \<subseteq> set (get_best_marking_state_for (n_gram_index sc)
                  (TRACE_START (n_gram_index sc)
                   # map activity (sort_values (filter (\<lambda>row. case_id row = cid) (event_log_df sc)))))"
proof -
  from run_emitted [OF assms] obtain sc1 sc2 where
    "lazily_registered sc sc1"
    "case_body sc1 (filter (\<lambda>row. case_id row = cid) (event_log_df sc)) = (sc2, Inr st)"
    by blast
  with case_body_flows_subset [of sc1 _ sc2 st] show ?thesis
    by (simp add: lazily_registered_def)
qed

subsection \<open>The enabled gateways of a case\<close>

lemma compute_gateway_enabled_time_frame:
  "bpmn_handler sc' = bpmn_handler sc
   \<Longrightarrow> compute_gateway_enabled_time sc' gw g fin = compute_gateway_enabled_time sc gw g fin"
  by (simp add: compute_gateway_enabled_time_def split: sum.splits)

lemma enabled_gateways_loop_frame:
  "bpmn_handler sc' = bpmn_handler sc
   \<Longrightarrow> enabled_gateways_loop sc' g fin ids fls acc = enabled_gateways_loop sc g fin ids fls acc"
proof (induction sc g fin ids fls acc rule: enabled_gateways_loop.induct)
  case (1 sc g fin ids acc)
  show ?case by simp
next
  case (2 sc g fin ids flow_id rest acc)
  note h = "2.prems"
  show ?case
  proof (cases "map_of (sequence_flows (bpmn_handler sc)) flow_id")
    case None
    with h "2.IH"(1) show ?thesis by simp
  next
    case (Some gw)
    note gw = this
    show ?thesis
    proof (cases "gw \<noteq> [] \<and> gw \<notin> dom (activities (bpmn_handler sc))")
      case False
      from "2.IH"(5) [OF gw False h] have
        "enabled_gateways_loop sc' g fin ids rest acc = enabled_gateways_loop sc g fin ids rest acc" .
      with h gw False show ?thesis by auto
    next
      case True
      note gateway = this
      show ?thesis
      proof (cases "get_upstream_tasks_through_gateways (bpmn_handler sc) gw")
        case (Inl e)
        with h gw gateway show ?thesis by simp
      next
        case (Inr ts)
        note ts = this
        show ?thesis
        proof (cases "Some ` ts \<inter> ids \<noteq> {}")
          case True
          with h gw gateway ts "2.IH"(2) [OF gw gateway ts True] show ?thesis by simp
        next
          case False
          note free = this
          show ?thesis
          proof (cases "compute_gateway_enabled_time sc gw g fin")
            case (Inl e)
            with h gw gateway ts free compute_gateway_enabled_time_frame [OF h, of gw g fin]
            show ?thesis by simp
          next
            case (Inr t)
            note t = this
            show ?thesis
            proof (cases "t \<noteq> None")
              case True
              with h gw gateway ts free t compute_gateway_enabled_time_frame [OF h, of gw g fin]
                "2.IH"(3) [OF gw gateway ts free t True]
              show ?thesis by simp
            next
              case False
              with h gw gateway ts free t compute_gateway_enabled_time_frame [OF h, of gw g fin]
                "2.IH"(4) [OF gw gateway ts free t False]
              show ?thesis by simp
            qed
          qed
        qed
      qed
    qed
  qed
qed

text \<open>How an entry gets into the list of enabled gateways.\<close>

lemma enabled_gateways_loop_member:
  "enabled_gateways_loop sc g fin ids fls acc = Inr gws \<Longrightarrow> entry \<in> set gws
   \<Longrightarrow> entry \<in> set acc
     \<or> (\<exists>flow_id \<in> set fls. \<exists>ts.
           map_of (sequence_flows (bpmn_handler sc)) flow_id = Some (entry_id entry)
         \<and> entry_id entry \<noteq> [] \<and> entry_id entry \<notin> dom (activities (bpmn_handler sc))
         \<and> get_upstream_tasks_through_gateways (bpmn_handler sc) (entry_id entry) = Inr ts
         \<and> Some ` ts \<inter> ids = {}
         \<and> compute_gateway_enabled_time sc (entry_id entry) g fin = Inr (entry_enabled_time entry)
         \<and> entry_enabled_time entry \<noteq> None)"
proof (induction sc g fin ids fls acc rule: enabled_gateways_loop.induct)
  case (1 sc g fin ids acc)
  then show ?case by simp
next
  case (2 sc g fin ids flow_id rest acc)
  show ?case
  proof (cases "map_of (sequence_flows (bpmn_handler sc)) flow_id")
    case None
    with "2.prems" "2.IH"(1) show ?thesis by auto
  next
    case (Some gw)
    note gw = this
    show ?thesis
    proof (cases "gw \<noteq> [] \<and> gw \<notin> dom (activities (bpmn_handler sc))")
      case False
      with "2.prems" gw "2.IH"(5) [OF gw False] show ?thesis by auto
    next
      case True
      note gateway = this
      from "2.prems"(1) gw gateway obtain ts where
        ts: "get_upstream_tasks_through_gateways (bpmn_handler sc) gw = Inr ts"
        by (cases "get_upstream_tasks_through_gateways (bpmn_handler sc) gw") auto
      show ?thesis
      proof (cases "Some ` ts \<inter> ids \<noteq> {}")
        case True
        with "2.prems" gw gateway ts "2.IH"(2) [OF gw gateway ts True] show ?thesis by auto
      next
        case False
        note free = this
        from "2.prems"(1) gw gateway ts free obtain t where
          t: "compute_gateway_enabled_time sc gw g fin = Inr t"
          by (cases "compute_gateway_enabled_time sc gw g fin") auto
        show ?thesis
        proof (cases "t \<noteq> None")
          case False
          with "2.prems" gw gateway ts free t "2.IH"(4) [OF gw gateway ts free t False]
          show ?thesis by auto
        next
          case True
          let ?new = "\<lparr>entry_id = gw, entry_enabled_time = t\<rparr>"
          from "2.prems"(1) gw gateway ts free t True
          have run: "enabled_gateways_loop sc g fin ids rest (acc @ [?new]) = Inr gws"
            by simp
          from "2.IH"(3) [OF gw gateway ts free t True run "2.prems"(2)]
          consider "entry \<in> set acc" | "entry = ?new"
            | "\<exists>flow_id \<in> set rest. \<exists>ts.
                 map_of (sequence_flows (bpmn_handler sc)) flow_id = Some (entry_id entry)
               \<and> entry_id entry \<noteq> [] \<and> entry_id entry \<notin> dom (activities (bpmn_handler sc))
               \<and> get_upstream_tasks_through_gateways (bpmn_handler sc) (entry_id entry) = Inr ts
               \<and> Some ` ts \<inter> ids = {}
               \<and> compute_gateway_enabled_time sc (entry_id entry) g fin = Inr (entry_enabled_time entry)
               \<and> entry_enabled_time entry \<noteq> None"
            by auto
          then show ?thesis
          proof cases
            case 1
            then show ?thesis by simp
          next
            case 2
            with gw gateway ts free t True show ?thesis by auto
          next
            case 3
            then show ?thesis by auto
          qed
        qed
      qed
    qed
  qed
qed

lemma set_insert_row: "set (insert_row row rows) = insert row (set rows)"
  by (induction rows) auto

lemma set_sort_values: "set (sort_values rows) = set rows"
  by (induction rows) (auto simp: set_insert_row)

lemma oa_id_ongoing_record:
  "oa_id (ongoing_record sc row) = get_task_id_by_name (bpmn_handler sc) (activity row)"
  by (simp add: ongoing_record_def Let_def)

lemma case_body_gateways:
  assumes "case_body sc grp = (sc', Inr st)" and "entry \<in> set (enabled_gateways st)"
  shows "\<exists>flow_id \<in> set (flows (control_flow_state st)). \<exists>ts.
           map_of (sequence_flows (bpmn_handler sc)) flow_id = Some (entry_id entry)
         \<and> entry_id entry \<noteq> [] \<and> entry_id entry \<notin> dom (activities (bpmn_handler sc))
         \<and> get_upstream_tasks_through_gateways (bpmn_handler sc) (entry_id entry) = Inr ts
         \<and> Some ` ts \<inter> set (map oa_id (ongoing_activities st)) = {}
         \<and> compute_gateway_enabled_time sc (entry_id entry) (sort_values grp)
             (filter (\<lambda>row. end_time row \<noteq> None) (sort_values grp))
             = Inr (entry_enabled_time entry)
         \<and> entry_enabled_time entry \<noteq> None"
proof -
  let ?fin = "filter (\<lambda>row. end_time row \<noteq> None) (sort_values grp)"
  from case_body_Inr [OF assms(1)] have
    gws: "enabled_gateways_loop sc' (sort_values grp) ?fin
            (set (map oa_id (ongoing_activities st))) (flows (control_flow_state st)) []
          = Inr (enabled_gateways st)"
    by blast
  from case_body_frame [OF assms(1)] have h: "bpmn_handler sc' = bpmn_handler sc"
    by (simp add: lazily_registered_def)
  from gws enabled_gateways_loop_frame [OF h] have
    "enabled_gateways_loop sc (sort_values grp) ?fin
       (set (map oa_id (ongoing_activities st))) (flows (control_flow_state st)) []
     = Inr (enabled_gateways st)"
    by simp
  from enabled_gateways_loop_member [OF this assms(2)] show ?thesis by simp
qed

subsection \<open>Activities, end-event exclusion and gateway suppression\<close>

text \<open>
  C2 (as amended). For every emitted case, the activities of the control-flow state are
  the id fields of the ongoing-activity records: every id an ongoing event of the case
  resolves to, and the null id exactly when the activity name of some ongoing event of
  the case does not resolve.
\<close>

theorem state_activities_are_ongoing_ids:
  assumes "compute_case_states sc = (sc', Inr case_states)" and "case_states cid = Some st"
  shows "set (state_activities (control_flow_state st)) = oa_id ` set (ongoing_activities st)
       \<and> (\<forall>t. Some t \<in> set (state_activities (control_flow_state st)) \<longleftrightarrow>
              (\<exists>row \<in> set (event_log_df sc). case_id row = cid \<and> end_time row = None
                 \<and> get_task_id_by_name (bpmn_handler sc) (activity row) = Some t))
       \<and> (None \<in> set (state_activities (control_flow_state st)) \<longleftrightarrow>
              (\<exists>row \<in> set (event_log_df sc). case_id row = cid \<and> end_time row = None
                 \<and> get_task_id_by_name (bpmn_handler sc) (activity row) = None))"
proof -
  let ?grp = "filter (\<lambda>row. case_id row = cid) (event_log_df sc)"
  from run_emitted [OF assms] obtain sc1 sc2 where
    frame: "lazily_registered sc sc1" and body: "case_body sc1 ?grp = (sc2, Inr st)"
    by blast
  from case_body_Inr [OF body] have
    acts: "state_activities (control_flow_state st) = remdups (map oa_id (ongoing_activities st))"
    and ongoing: "ongoing_activities st
                  = map (ongoing_record sc1) (filter (\<lambda>row. end_time row = None) (sort_values ?grp))"
    by blast+
  from frame have h: "bpmn_handler sc1 = bpmn_handler sc"
    by (simp add: lazily_registered_def)
  have ids: "set (state_activities (control_flow_state st))
             = (\<lambda>row. get_task_id_by_name (bpmn_handler sc) (activity row))
               ` {row \<in> set (event_log_df sc). case_id row = cid \<and> end_time row = None}"
    unfolding acts ongoing
    by (auto simp: set_sort_values oa_id_ongoing_record h image_iff)
  have "set (state_activities (control_flow_state st)) = oa_id ` set (ongoing_activities st)"
    by (simp add: acts)
  moreover have "\<forall>t. Some t \<in> set (state_activities (control_flow_state st)) \<longleftrightarrow>
              (\<exists>row \<in> set (event_log_df sc). case_id row = cid \<and> end_time row = None
                 \<and> get_task_id_by_name (bpmn_handler sc) (activity row) = Some t)"
    unfolding ids by (auto simp: image_iff)
  moreover have "None \<in> set (state_activities (control_flow_state st)) \<longleftrightarrow>
              (\<exists>row \<in> set (event_log_df sc). case_id row = cid \<and> end_time row = None
                 \<and> get_task_id_by_name (bpmn_handler sc) (activity row) = None)"
    unfolding ids by (auto simp: image_iff)
  ultimately show ?thesis by blast
qed

text \<open>
  C3. For every case of the log, with \<open>st\<close> the state the loop body computes for it (run
  on the state computer as the earlier cases left it): if a gateway in the enabled
  gateways of \<open>st\<close> is an end event of the model, the case is absent from the returned
  mapping; otherwise the mapping holds \<open>st\<close> for the case.
\<close>

theorem end_event_exclusion:
  assumes "compute_case_states sc = (sc', Inr case_states)"
    and "cid \<in> case_id ` set (event_log_df sc)"
  shows "\<exists>sc1 sc2 st.
           lazily_registered sc sc1
         \<and> case_body sc1 (filter (\<lambda>row. case_id row = cid) (event_log_df sc)) = (sc2, Inr st)
         \<and> ((\<exists>gateway \<in> set (enabled_gateways st). is_end_event (bpmn_handler sc) (entry_id gateway))
              \<longrightarrow> case_states cid = None)
         \<and> (\<not> (\<exists>gateway \<in> set (enabled_gateways st). is_end_event (bpmn_handler sc) (entry_id gateway))
              \<longrightarrow> case_states cid = Some st)"
proof -
  from run_case [OF assms] obtain sc1 sc2 st where
    "lazily_registered sc sc1"
    "case_body sc1 (filter (\<lambda>row. case_id row = cid) (event_log_df sc)) = (sc2, Inr st)"
    "case_states cid = (if has_enabled_end_event sc st then None else Some st)"
    by blast
  then show ?thesis
    by (intro exI [of _ sc1] exI [of _ sc2] exI [of _ st])
       (simp add: has_enabled_end_event_def list_ex_iff)
qed

text \<open>
  C4. For every case of the log, emitted or dropped, and every flow of its final flow set
  whose target is not an activity: if the upstream task set of the target meets the ids
  of the ongoing activities, the target is not among the enabled gateways of the case.
\<close>

theorem gateway_with_ongoing_upstream_not_enabled:
  assumes "compute_case_states sc = (sc', Inr case_states)"
    and "cid \<in> case_id ` set (event_log_df sc)"
  shows "\<exists>sc1 sc2 st.
           lazily_registered sc sc1
         \<and> case_body sc1 (filter (\<lambda>row. case_id row = cid) (event_log_df sc)) = (sc2, Inr st)
         \<and> (case_states cid = None \<or> case_states cid = Some st)
         \<and> (\<forall>flow_id \<in> set (flows (control_flow_state st)). \<forall>gw tasks_upstream.
               map_of (sequence_flows (bpmn_handler sc)) flow_id = Some gw
             \<and> gw \<notin> dom (activities (bpmn_handler sc))
             \<and> get_upstream_tasks_through_gateways (bpmn_handler sc) gw = Inr tasks_upstream
             \<and> Some ` tasks_upstream \<inter> oa_id ` set (ongoing_activities st) \<noteq> {}
             \<longrightarrow> gw \<notin> entry_id ` set (enabled_gateways st))"
proof -
  let ?grp = "filter (\<lambda>row. case_id row = cid) (event_log_df sc)"
  from run_case [OF assms] obtain sc1 sc2 st where
    frame: "lazily_registered sc sc1" and body: "case_body sc1 ?grp = (sc2, Inr st)"
    and res: "case_states cid = (if has_enabled_end_event sc st then None else Some st)"
    by blast
  from frame have h: "bpmn_handler sc1 = bpmn_handler sc"
    by (simp add: lazily_registered_def)
  have "gw \<notin> entry_id ` set (enabled_gateways st)"
    if "get_upstream_tasks_through_gateways (bpmn_handler sc) gw = Inr tasks_upstream"
      and "Some ` tasks_upstream \<inter> oa_id ` set (ongoing_activities st) \<noteq> {}"
    for gw tasks_upstream
  proof
    assume "gw \<in> entry_id ` set (enabled_gateways st)"
    then obtain entry where "entry \<in> set (enabled_gateways st)" "entry_id entry = gw"
      by auto
    with case_body_gateways [OF body, of entry] h that show False
      by auto
  qed
  with frame body res show ?thesis
    by (intro exI [of _ sc1] exI [of _ sc2] exI [of _ st]) auto
qed

text \<open>
  C10 (as amended). For every case of the log: if every end event that a flow of the
  final flow set targets is suppressed, because its upstream task set meets the ids of
  the ongoing activities, or has an undefined enabled time, then the case is emitted.
\<close>

theorem suppressed_end_events_keep_case:
  assumes "compute_case_states sc = (sc', Inr case_states)"
    and "cid \<in> case_id ` set (event_log_df sc)"
  shows "\<exists>sc1 sc2 st.
           lazily_registered sc sc1
         \<and> case_body sc1 (filter (\<lambda>row. case_id row = cid) (event_log_df sc)) = (sc2, Inr st)
         \<and> ((\<forall>flow_id \<in> set (flows (control_flow_state st)). \<forall>gw.
                 map_of (sequence_flows (bpmn_handler sc)) flow_id = Some gw
               \<and> is_end_event (bpmn_handler sc) gw
               \<longrightarrow> (\<exists>tasks_upstream.
                      get_upstream_tasks_through_gateways (bpmn_handler sc) gw = Inr tasks_upstream
                    \<and> Some ` tasks_upstream \<inter> oa_id ` set (ongoing_activities st) \<noteq> {})
                 \<or> compute_gateway_enabled_time sc gw
                      (sort_values (filter (\<lambda>row. case_id row = cid) (event_log_df sc)))
                      (filter (\<lambda>row. end_time row \<noteq> None)
                         (sort_values (filter (\<lambda>row. case_id row = cid) (event_log_df sc))))
                    = Inr None)
              \<longrightarrow> case_states cid = Some st)"
proof -
  let ?grp = "filter (\<lambda>row. case_id row = cid) (event_log_df sc)"
  from run_case [OF assms] obtain sc1 sc2 st where
    frame: "lazily_registered sc sc1" and body: "case_body sc1 ?grp = (sc2, Inr st)"
    and res: "case_states cid = (if has_enabled_end_event sc st then None else Some st)"
    by blast
  from frame have h: "bpmn_handler sc1 = bpmn_handler sc"
    by (simp add: lazily_registered_def)
  have "\<not> has_enabled_end_event sc st"
    if hyp: "\<forall>flow_id \<in> set (flows (control_flow_state st)). \<forall>gw.
                 map_of (sequence_flows (bpmn_handler sc)) flow_id = Some gw
               \<and> is_end_event (bpmn_handler sc) gw
               \<longrightarrow> (\<exists>tasks_upstream.
                      get_upstream_tasks_through_gateways (bpmn_handler sc) gw = Inr tasks_upstream
                    \<and> Some ` tasks_upstream \<inter> oa_id ` set (ongoing_activities st) \<noteq> {})
                 \<or> compute_gateway_enabled_time sc gw (sort_values ?grp)
                      (filter (\<lambda>row. end_time row \<noteq> None) (sort_values ?grp)) = Inr None"
  proof
    assume "has_enabled_end_event sc st"
    then obtain entry where entry: "entry \<in> set (enabled_gateways st)"
      and final: "is_end_event (bpmn_handler sc) (entry_id entry)"
      by (auto simp: has_enabled_end_event_def list_ex_iff)
    from case_body_gateways [OF body entry] h obtain flow_id ts where
      flow: "flow_id \<in> set (flows (control_flow_state st))"
      and tgt: "map_of (sequence_flows (bpmn_handler sc)) flow_id = Some (entry_id entry)"
      and ts: "get_upstream_tasks_through_gateways (bpmn_handler sc) (entry_id entry) = Inr ts"
      and free: "Some ` ts \<inter> set (map oa_id (ongoing_activities st)) = {}"
      and time: "compute_gateway_enabled_time sc1 (entry_id entry) (sort_values ?grp)
                   (filter (\<lambda>row. end_time row \<noteq> None) (sort_values ?grp))
                 = Inr (entry_enabled_time entry)"
      and defined: "entry_enabled_time entry \<noteq> None"
      by auto
    from time compute_gateway_enabled_time_frame [OF h] have
      "compute_gateway_enabled_time sc (entry_id entry) (sort_values ?grp)
         (filter (\<lambda>row. end_time row \<noteq> None) (sort_values ?grp))
       = Inr (entry_enabled_time entry)"
      by simp
    with hyp flow tgt final ts free defined show False
      by auto
  qed
  with frame body res show ?thesis
    by (intro exI [of _ sc1] exI [of _ sc2] exI [of _ st]) auto
qed

subsection \<open>Unresolved ongoing events\<close>






subsection \<open>The example runs\<close>

lemmas example_defs =
  line_sc_def line_log_def ev_def line_oracle_def line_graph_def line_index_def line_handler_def
  no_graph_def bare_sc_def fork_handler_def fork_sc_def stray_index_def stray_log_def stray_sc_def
  unlabelled_graph_def unlabelled_sc_def line_sc_after_def waiting_for_B_def unresolved_zzz_def
  line_state_1_def line_state_2_def line_state_4_def line_result_def bare_state_1_def
  bare_result_def bare_sc_after_def fork_state_def stray_state_def unlabelled_state_def

lemmas run_defs =
  compute_case_states_def groupby_def case_body_def Let_def ongoing_record_def
  get_task_id_by_name_def get_upstream_tasks_through_gateways_def
  compute_gateway_enabled_time_def has_enabled_end_event_def is_end_event_def py_min_def

lemma line_run: "compute_case_states line_sc = (line_sc_after, Inr line_result)"
  by (simp add: run_defs example_defs cong: let_weak_cong)

lemma bare_run: "compute_case_states bare_sc = (bare_sc_after, Inr bare_result)"
  by (simp add: run_defs example_defs cong: let_weak_cong)

lemma fork_run: "compute_case_states fork_sc = (fork_sc, Inr Map.empty)"
  by (simp add: run_defs example_defs cong: let_weak_cong)

lemma fork_body: "case_body fork_sc (event_log_df fork_sc) = (fork_sc, Inr fork_state)"
  by (simp add: run_defs example_defs cong: let_weak_cong)

lemma stray_run: "compute_case_states stray_sc = (stray_sc, Inr [1 \<mapsto> stray_state])"
  by (simp add: run_defs example_defs cong: let_weak_cong)


theorem flows_within_matcher_marking_witness:
  "compute_case_states line_sc = (line_sc_after, Inr line_result)
   \<and> line_result 1 = Some line_state_1
   \<and> set (flows (control_flow_state line_state_1))
       \<subseteq> set (get_best_marking_state_for (n_gram_index line_sc)
                (TRACE_START (n_gram_index line_sc)
                 # map activity (sort_values (filter (\<lambda>row. case_id row = 1) (event_log_df line_sc)))))"
proof -
  have st: "line_result 1 = Some line_state_1"
    by (simp add: line_result_def)
  from line_run st flows_within_matcher_marking [OF line_run st] show ?thesis
    by (intro conjI)
qed

theorem state_activities_are_ongoing_ids_witness:
  "compute_case_states line_sc = (line_sc_after, Inr line_result)
   \<and> line_result 1 = Some line_state_1
   \<and> set (state_activities (control_flow_state line_state_1)) = {Some ''B''}
   \<and> set (state_activities (control_flow_state line_state_1))
       = oa_id ` set (ongoing_activities line_state_1)
   \<and> (\<forall>t. Some t \<in> set (state_activities (control_flow_state line_state_1)) \<longleftrightarrow>
          (\<exists>row \<in> set (event_log_df line_sc). case_id row = 1 \<and> end_time row = None
             \<and> get_task_id_by_name (bpmn_handler line_sc) (activity row) = Some t))
   \<and> (None \<in> set (state_activities (control_flow_state line_state_1)) \<longleftrightarrow>
          (\<exists>row \<in> set (event_log_df line_sc). case_id row = 1 \<and> end_time row = None
             \<and> get_task_id_by_name (bpmn_handler line_sc) (activity row) = None))"
proof -
  have st: "line_result 1 = Some line_state_1"
    by (simp add: line_result_def)
  have acts: "set (state_activities (control_flow_state line_state_1)) = {Some ''B''}"
    by (simp add: line_state_1_def)
  from line_run st acts state_activities_are_ongoing_ids [OF line_run st] show ?thesis
    by (intro conjI) blast+
qed

text \<open>
  C2 as stated fails: the only ongoing event of the case is \<open>zzz\<close>, which resolves to no
  activity, and the activities of the emitted state are the list of the null id.
\<close>

theorem unresolved_id_in_state_activities_counterexample:
  "compute_case_states stray_sc = (stray_sc, Inr [1 \<mapsto> stray_state])
   \<and> state_activities (control_flow_state stray_state) = [None]
   \<and> event_log_df stray_sc = [ev 1 ''a'' (Some 0) (Some 10), ev 1 ''zzz'' (Some 12) None]
   \<and> get_task_id_by_name (bpmn_handler stray_sc) ''a'' = Some ''A''
   \<and> get_task_id_by_name (bpmn_handler stray_sc) ''zzz'' = None"
  using stray_run
  by (simp add: stray_state_def stray_sc_def stray_log_def line_handler_def get_task_id_by_name_def)

theorem end_event_exclusion_witness:
  "compute_case_states line_sc = (line_sc_after, Inr line_result)
   \<and> 3 \<in> case_id ` set (event_log_df line_sc)
   \<and> line_result 3 = None
   \<and> (\<exists>sc1 sc2 st.
         lazily_registered line_sc sc1
       \<and> case_body sc1 (filter (\<lambda>row. case_id row = 3) (event_log_df line_sc)) = (sc2, Inr st)
       \<and> ((\<exists>gateway \<in> set (enabled_gateways st). is_end_event (bpmn_handler line_sc) (entry_id gateway))
            \<longrightarrow> line_result 3 = None)
       \<and> (\<not> (\<exists>gateway \<in> set (enabled_gateways st). is_end_event (bpmn_handler line_sc) (entry_id gateway))
            \<longrightarrow> line_result 3 = Some st))"
proof -
  have mem: "3 \<in> case_id ` set (event_log_df line_sc)"
    by (simp add: line_sc_def line_log_def ev_def)
  have dropped: "line_result 3 = None"
    by (simp add: line_result_def)
  from line_run mem dropped end_event_exclusion [OF line_run mem] show ?thesis
    by (intro conjI)
qed

theorem gateway_with_ongoing_upstream_not_enabled_witness:
  "compute_case_states bare_sc = (bare_sc_after, Inr bare_result)
   \<and> 1 \<in> case_id ` set (event_log_df bare_sc)
   \<and> (\<exists>sc1 sc2 st.
         lazily_registered bare_sc sc1
       \<and> case_body sc1 (filter (\<lambda>row. case_id row = 1) (event_log_df bare_sc)) = (sc2, Inr st)
       \<and> (bare_result 1 = None \<or> bare_result 1 = Some st)
       \<and> (\<forall>flow_id \<in> set (flows (control_flow_state st)). \<forall>gw tasks_upstream.
             map_of (sequence_flows (bpmn_handler bare_sc)) flow_id = Some gw
           \<and> gw \<notin> dom (activities (bpmn_handler bare_sc))
           \<and> get_upstream_tasks_through_gateways (bpmn_handler bare_sc) gw = Inr tasks_upstream
           \<and> Some ` tasks_upstream \<inter> oa_id ` set (ongoing_activities st) \<noteq> {}
           \<longrightarrow> gw \<notin> entry_id ` set (enabled_gateways st)))
   \<and> bare_result 1 = Some bare_state_1
   \<and> ''f3'' \<in> set (flows (control_flow_state bare_state_1))
   \<and> map_of (sequence_flows (bpmn_handler bare_sc)) ''f3'' = Some ''E''
   \<and> get_upstream_tasks_through_gateways (bpmn_handler bare_sc) ''E'' = Inr {''B''}
   \<and> Some ''B'' \<in> oa_id ` set (ongoing_activities bare_state_1)
   \<and> enabled_gateways bare_state_1 = []"
proof -
  have mem: "1 \<in> case_id ` set (event_log_df bare_sc)"
    by (simp add: bare_sc_def line_sc_def line_log_def ev_def)
  have concrete: "bare_result 1 = Some bare_state_1
    \<and> ''f3'' \<in> set (flows (control_flow_state bare_state_1))
    \<and> map_of (sequence_flows (bpmn_handler bare_sc)) ''f3'' = Some ''E''
    \<and> get_upstream_tasks_through_gateways (bpmn_handler bare_sc) ''E'' = Inr {''B''}
    \<and> Some ''B'' \<in> oa_id ` set (ongoing_activities bare_state_1)
    \<and> enabled_gateways bare_state_1 = []"
    by (simp add: bare_result_def bare_state_1_def bare_sc_def line_sc_def line_handler_def
        waiting_for_B_def get_upstream_tasks_through_gateways_def)
  from bare_run mem concrete gateway_with_ongoing_upstream_not_enabled [OF bare_run mem]
  show ?thesis by (intro conjI) blast+
qed

theorem suppressed_end_events_keep_case_witness:
  "compute_case_states bare_sc = (bare_sc_after, Inr bare_result)
   \<and> 1 \<in> case_id ` set (event_log_df bare_sc)
   \<and> bare_result 1 = Some bare_state_1
   \<and> (\<exists>sc1 sc2 st.
         lazily_registered bare_sc sc1
       \<and> case_body sc1 (filter (\<lambda>row. case_id row = 1) (event_log_df bare_sc)) = (sc2, Inr st)
       \<and> ((\<forall>flow_id \<in> set (flows (control_flow_state st)). \<forall>gw.
               map_of (sequence_flows (bpmn_handler bare_sc)) flow_id = Some gw
             \<and> is_end_event (bpmn_handler bare_sc) gw
             \<longrightarrow> (\<exists>tasks_upstream.
                    get_upstream_tasks_through_gateways (bpmn_handler bare_sc) gw = Inr tasks_upstream
                  \<and> Some ` tasks_upstream \<inter> oa_id ` set (ongoing_activities st) \<noteq> {})
               \<or> compute_gateway_enabled_time bare_sc gw
                    (sort_values (filter (\<lambda>row. case_id row = 1) (event_log_df bare_sc)))
                    (filter (\<lambda>row. end_time row \<noteq> None)
                       (sort_values (filter (\<lambda>row. case_id row = 1) (event_log_df bare_sc))))
                  = Inr None)
            \<longrightarrow> bare_result 1 = Some st))"
proof -
  have mem: "1 \<in> case_id ` set (event_log_df bare_sc)"
    by (simp add: bare_sc_def line_sc_def line_log_def ev_def)
  have emitted: "bare_result 1 = Some bare_state_1"
    by (simp add: bare_result_def)
  from bare_run mem emitted suppressed_end_events_keep_case [OF bare_run mem] show ?thesis
    by (intro conjI)
qed

text \<open>
  C10 as stated fails: flow \<open>f2\<close> of the final flow set targets the end event \<open>E2\<close>,
  which is suppressed because its upstream task \<open>B\<close> is ongoing, and yet the case is
  dropped, since the end event \<open>E1\<close> is enabled.
\<close>

theorem suppressed_end_event_case_dropped_counterexample:
  "compute_case_states fork_sc = (fork_sc, Inr Map.empty)
   \<and> case_body fork_sc (event_log_df fork_sc) = (fork_sc, Inr fork_state)
   \<and> ''f2'' \<in> set (flows (control_flow_state fork_state))
   \<and> map_of (sequence_flows (bpmn_handler fork_sc)) ''f2'' = Some ''E2''
   \<and> is_end_event (bpmn_handler fork_sc) ''E2''
   \<and> get_upstream_tasks_through_gateways (bpmn_handler fork_sc) ''E2'' = Inr {''B''}
   \<and> Some ''B'' \<in> oa_id ` set (ongoing_activities fork_state)"
  using fork_run fork_body
  by (simp add: fork_state_def fork_sc_def fork_handler_def waiting_for_B_def is_end_event_def
      get_upstream_tasks_through_gateways_def)

theorem only_oracle_table_changes_witness:
  "compute_case_states line_sc = (line_sc_after, Inr line_result)
   \<and> n_gram_index line_sc_after = n_gram_index line_sc
   \<and> reachability_graph line_sc_after = reachability_graph line_sc
   \<and> event_log_df line_sc_after = event_log_df line_sc
   \<and> bpmn_handler line_sc_after = bpmn_handler line_sc
   \<and> enabled_since (concurrency_oracle line_sc_after) = enabled_since (concurrency_oracle line_sc)
   \<and> (\<forall>name. concurrency (concurrency_oracle line_sc_after) name
              = concurrency (concurrency_oracle line_sc) name
          \<or> (concurrency (concurrency_oracle line_sc) name = None
              \<and> concurrency (concurrency_oracle line_sc_after) name = Some {}))
   \<and> concurrency (concurrency_oracle line_sc) ''a'' = None
   \<and> concurrency (concurrency_oracle line_sc_after) ''a'' = Some {}"
proof -
  have table: "concurrency (concurrency_oracle line_sc) ''a'' = None
               \<and> concurrency (concurrency_oracle line_sc_after) ''a'' = Some {}"
    by (simp add: line_sc_after_def line_sc_def line_oracle_def)
  from line_run table only_oracle_table_changes [OF line_run] show ?thesis
    by (intro conjI) blast+
qed



end
